theory Spec2Isabelle
  imports Main "HOL-Library.Word" "HOL-Library.List_Lexorder" "HOL-Library.Char_ord"
begin

section \<open>Data model of the forward index builder\<close>

text \<open>
  The development embeds \<^verbatim>\<open>include/pisa/forward_index_builder.hpp\<close>.
  Strings are byte strings (\<open>char list\<close>); \<open>std::string\<close>'s \<open>operator<\<close> is the
  byte-wise lexicographic order, which is the order of \<open>List_Lexorder\<close> over \<open>Char_ord\<close>.
  A binary index file is a list of 32-bit words: every write to it is a whole number of
  \<open>uint32_t\<close> values, so eight bytes are two words. A text file is its byte string.
\<close>

type_synonym u32 = "32 word"

abbreviation newline :: char where
  "newline \<equiv> CHR 0x0A"

datatype error =
    Config_Invalid       \<comment> \<open>\<open>std::abort()\<close> at the start of \<open>build\<close>\<close>
  | Expects_Violation    \<comment> \<open>the \<open>Expects\<close> of \<open>merge_spans\<close> fails\<close>
  | Undefined_Behaviour  \<comment> \<open>an iterator or index leaves its range\<close>

record Document_Record =
  trecid :: string
  url :: string
  content :: string
  valid :: bool

text \<open>
  The four sibling files of one base name: the binary index, \<open>.documents\<close>, \<open>.urls\<close> and
  \<open>.terms\<close>. The same shape serves a batch (\<open><basename>.batch.<n>\<close>) and the final output.
\<close>

record Index_Files =
  index :: "u32 list"
  documents :: string
  urls :: string
  terms :: string

definition no_files :: Index_Files where
  "no_files = \<lparr>index = [], documents = [], urls = [], terms = []\<rparr>"

text \<open>
  The batch files on disk, keyed by batch number. A file that was never written reads as
  empty, as an \<open>std::ifstream\<close> that failed to open does.
\<close>

type_synonym file_system = "nat \<Rightarrow> Index_Files"

record Batch_Process =
  batch_number :: nat
  records :: "Document_Record list"
  first_document :: u32

type_synonym process_term_function_type = "string \<Rightarrow> string"

text \<open>
  A content splitter calls its \<open>process\<close> argument once per raw term, in order; it is
  modelled by the list of raw terms it emits.
\<close>

type_synonym process_content_function_type = "string \<Rightarrow> string list"

section \<open>Character classes and text input\<close>

text \<open>
  \<open>std::isspace\<close> and \<open>std::isalnum\<close> of \<^verbatim>\<open><cctype>\<close> in the "C" locale.
\<close>

definition isspace :: "char \<Rightarrow> bool" where
  "isspace c \<longleftrightarrow> c = CHR '' '' \<or> (9 \<le> (of_char c :: nat) \<and> (of_char c :: nat) \<le> 13)"

definition isalnum :: "char \<Rightarrow> bool" where
  "isalnum c \<longleftrightarrow>
     (let n = (of_char c :: nat)
      in (48 \<le> n \<and> n \<le> 57) \<or> (65 \<le> n \<and> n \<le> 90) \<or> (97 \<le> n \<and> n \<le> 122))"

text \<open>
  The loop \<open>while (std::getline(is, line)) vec.push_back(line)\<close>: \<open>line\<close> holds the bytes
  read since the last newline. At the end of the file a non-empty partial line is still
  returned; an empty one makes \<open>getline\<close> fail.
\<close>

fun getlines :: "string \<Rightarrow> string \<Rightarrow> string list" where
  "getlines line [] = (if line = [] then [] else [line])"
| "getlines line (c # cs) =
     (if c = newline then line # getlines [] cs else getlines (line @ [c]) cs)"

text \<open>
  Modelled from the spec: \<open>io::read_string_vector\<close> (\<open>io.hpp\<close> is not among the sources),
  which reads a file "into an ordered array", one element per line.
\<close>

definition read_string_vector :: "string \<Rightarrow> string list" where
  "read_string_vector file = getlines [] file"

section \<open>The file format writer\<close>

text \<open>
  \<open>write_document\<close> stores the distance in a \<open>uint32_t\<close> and then writes that many
  elements, so the length wraps modulo \<open>2^32\<close> together with the payload. The stream is
  the list of words written so far.
\<close>

definition write_document :: "u32 list \<Rightarrow> u32 list \<Rightarrow> u32 list" where
  "write_document os xs =
     (let len = (of_nat (length xs) :: u32)
      in os @ len # take (unat len) xs)"

definition write_header :: "u32 list \<Rightarrow> u32 \<Rightarrow> u32 list" where
  "write_header os document_count = write_document os [document_count]"

section \<open>The content splitters\<close>

text \<open>
  The lambda inside \<open>parse_html_content\<close> that looks for the first blank line of the raw
  content. The argument is the content from \<open>pos\<close> on. When \<open>std::find\<close> returns
  \<open>content.end()\<close>, the code still calls \<open>std::next(pos)\<close> and scans from one past the end:
  that is undefined behaviour and an error value here.
\<close>

function skip_header :: "string \<Rightarrow> error + string" where
  "skip_header s =
     (if s = [] then Inr []
      else (case dropWhile (\<lambda>c. c \<noteq> newline) s of
              [] \<Rightarrow> Inl Undefined_Behaviour
            | _ # t \<Rightarrow>
                (let u = dropWhile (\<lambda>c. \<not> (c = newline \<or> \<not> isspace c)) t
                 in if u \<noteq> [] \<and> hd u = newline then Inr u else skip_header u)))"
  by pat_completeness auto
termination
proof (relation "measure length", goal_cases)
  case 1
  show ?case by simp
next
  case (2 s x t u)
  have "length u \<le> length t"
    using 2 by (simp add: length_dropWhile_le)
  moreover have "length (dropWhile (\<lambda>c. c \<noteq> newline) s) \<le> length s"
    by (rule length_dropWhile_le)
  ultimately show ?case
    using 2 by simp
qed

declare skip_header.simps [simp del]

text \<open>
  The tokenising loop of \<open>parse_html_content\<close>: \<open>find_if_not\<close> ends the term,
  \<open>find_if\<close> skips to the next alphanumeric character.
\<close>

function emit_terms :: "string \<Rightarrow> string list" where
  "emit_terms s =
     (if s = [] then []
      else (let term_end = dropWhile isalnum s;
                emitted = (if s \<noteq> term_end then [takeWhile isalnum s] else [])
            in emitted @ emit_terms (dropWhile (\<lambda>c. \<not> isalnum c) term_end)))"
  by pat_completeness auto
termination
proof (relation "measure length", goal_cases)
  case 1
  show ?case by simp
next
  case (2 s term_end emitted)
  show ?case
  proof (cases s)
    case Nil
    with 2 show ?thesis by simp
  next
    case (Cons c cs)
    have le1: "length (dropWhile isalnum cs) \<le> length cs"
      by (rule length_dropWhile_le)
    have le2: "length (dropWhile (\<lambda>c. \<not> isalnum c) (dropWhile isalnum cs))
               \<le> length (dropWhile isalnum cs)"
      by (rule length_dropWhile_le)
    have le3: "length (dropWhile (\<lambda>c. \<not> isalnum c) cs) \<le> length cs"
      by (rule length_dropWhile_le)
    show ?thesis
      using 2 Cons le1 le2 le3 by (cases "isalnum c") simp_all
  qed
qed

declare emit_terms.simps [simp del]

text \<open>
  \<open>parse_html_content\<close>, over the HTML cleaner \<open>parsing::html::cleantext\<close>, which
  \<open>parsing/html.hpp\<close> defines and the sources do not contain: it is the parameter
  \<open>cleantext\<close>. The header is cut from the raw content first; the cleaner sees only what
  is left. The result is the list of terms handed to \<open>process\<close>.
\<close>

definition parse_html_content :: "(string \<Rightarrow> string) \<Rightarrow> string \<Rightarrow> error + string list" where
  "parse_html_content cleantext raw =
     (case skip_header raw of
        Inl e \<Rightarrow> Inl e
      | Inr view \<Rightarrow>
          (let cleaned = cleantext view
           in if cleaned = [] then Inr [] else Inr (emit_terms cleaned)))"

text \<open>
  \<open>parse_plaintext_content\<close>: \<open>content_stream >> term\<close> skips white space and reads up
  to the next white space.
\<close>

fun plaintext_terms :: "string \<Rightarrow> string \<Rightarrow> string list" where
  "plaintext_terms trm [] = (if trm = [] then [] else [trm])"
| "plaintext_terms trm (c # cs) =
     (if isspace c then (if trm = [] then [] else [trm]) @ plaintext_terms [] cs
      else plaintext_terms (trm @ [c]) cs)"

definition parse_plaintext_content :: process_content_function_type where
  "parse_plaintext_content raw = plaintext_terms [] raw"

section \<open>The batch processor\<close>

text \<open>
  The closure \<open>process\<close> of \<open>run\<close>. Its captured state is the \<open>std::map\<close> from term to
  local id, the stream \<open>term_os\<close> and the vector \<open>term_ids\<close> of the current document. The
  map is a list of its entries in insertion order (keys are inserted only when absent),
  so \<open>map.size()\<close> is its length. There is no test of the normalised term for emptiness.
\<close>

type_synonym term_map = "(string \<times> u32) list"

definition process ::
  "process_term_function_type \<Rightarrow> string \<Rightarrow> term_map \<times> string \<times> u32 list
     \<Rightarrow> term_map \<times> string \<times> u32 list" where
  "process process_term raw_term = (\<lambda>(tmap, term_os, term_ids).
     (let trm = process_term raw_term
      in case map_of tmap trm of
           Some tid \<Rightarrow> (tmap, term_os, term_ids @ [tid])
         | None \<Rightarrow>
             (let tid = (of_nat (length tmap) :: u32)
              in (tmap @ [(trm, tid)], term_os @ trm @ [newline], term_ids @ [tid]))))"

text \<open>The body of the loop over \<open>bp.records\<close>: one record, the four streams and the map.\<close>

definition run_record ::
  "process_term_function_type \<Rightarrow> process_content_function_type \<Rightarrow> Document_Record
     \<Rightarrow> Index_Files \<times> term_map \<Rightarrow> Index_Files \<times> term_map" where
  "run_record process_term process_content rec = (\<lambda>(fs, tmap).
     (let title_os = documents fs @ trecid rec @ [newline];
          url_os = urls fs @ url rec @ [newline];
          (tmap', term_os, term_ids) =
             fold (process process_term) (process_content (content rec)) (tmap, terms fs, [])
      in (\<lparr>index = write_document (index fs) term_ids, documents = title_os,
           urls = url_os, terms = term_os\<rparr>, tmap')))"

definition run ::
  "process_term_function_type \<Rightarrow> process_content_function_type \<Rightarrow> Batch_Process
     \<Rightarrow> Index_Files" where
  "run process_term process_content bp =
     fst (fold (run_record process_term process_content) (records bp)
            (no_files\<lparr>index := write_header [] (of_nat (length (records bp)))\<rparr>, []))"

section \<open>The term merger\<close>

record Term_Span =
  span_first :: nat
  span_last :: nat
  span_lvl :: nat

text \<open>
  \<open>std::inplace_merge\<close> of two consecutive sorted ranges: stable, the left range wins a
  tie. \<open>std::unique\<close> followed by \<open>erase\<close> is \<open>remdups_adj\<close>.
\<close>

fun inplace_merge :: "'a::linorder list \<Rightarrow> 'a list \<Rightarrow> 'a list" where
  "inplace_merge [] ys = ys"
| "inplace_merge xs [] = xs"
| "inplace_merge (x # xs) (y # ys) =
     (if y < x then y # inplace_merge (x # xs) ys else x # inplace_merge xs (y # ys))"

text \<open>
  The lambda \<open>merge_spans\<close>, with the vector \<open>terms\<close> it captures passed in and returned.
  The iterators \<open>first\<close>, \<open>mid\<close>, \<open>last\<close> must lie in the vector in this order; otherwise
  the behaviour is undefined.
\<close>

definition merge_spans ::
  "Term_Span \<Rightarrow> Term_Span \<Rightarrow> string list \<Rightarrow> error + Term_Span \<times> string list" where
  "merge_spans lhs rhs terms_v =
     (if span_last lhs \<noteq> span_first rhs then Inl Expects_Violation
      else if \<not> (span_first lhs \<le> span_last lhs \<and> span_last lhs \<le> span_last rhs
                \<and> span_last rhs \<le> length terms_v) then Inl Undefined_Behaviour
      else
        (let left = take (span_last lhs - span_first lhs) (drop (span_first lhs) terms_v);
             right = take (span_last rhs - span_last lhs) (drop (span_last lhs) terms_v);
             merged = inplace_merge left right;
             terms_v = take (span_first lhs) terms_v @ remdups_adj merged
                       @ drop (span_last rhs) terms_v
         in Inr (\<lparr>span_first = span_first lhs, span_last = length terms_v,
                   span_lvl = span_lvl lhs + 1\<rparr>, terms_v)))"

text \<open>The lambda \<open>push_span\<close>; the stack \<open>spans\<close> is a list with its top first.\<close>

fun push_span ::
  "Term_Span \<Rightarrow> Term_Span list \<Rightarrow> string list \<Rightarrow> error + Term_Span list \<times> string list" where
  "push_span s [] terms_v = Inr ([s], terms_v)"
| "push_span s (top_span # spans) terms_v =
     (if span_lvl top_span = span_lvl s
      then (case merge_spans top_span s terms_v of
              Inl e \<Rightarrow> Inl e
            | Inr (s', terms_v') \<Rightarrow> push_span s' spans terms_v')
      else Inr (s # top_span # spans, terms_v))"

text \<open>The loop over the batches: read the batch's \<open>.terms\<close>, sort the new range, push it.\<close>

fun collect_batches ::
  "file_system \<Rightarrow> nat list \<Rightarrow> Term_Span list \<Rightarrow> string list
     \<Rightarrow> error + Term_Span list \<times> string list" where
  "collect_batches fs [] spans terms_v = Inr (spans, terms_v)"
| "collect_batches fs (batch # batches) spans terms_v =
     (let mid = length terms_v;
          terms_v = terms_v @ getlines [] (terms (fs batch));
          terms_v = take mid terms_v @ sort (drop mid terms_v)
      in case push_span \<lparr>span_first = mid, span_last = length terms_v, span_lvl = 0\<rparr>
                spans terms_v of
           Inl e \<Rightarrow> Inl e
         | Inr (spans', terms_v') \<Rightarrow> collect_batches fs batches spans' terms_v')"

text \<open>The final loop \<open>while (spans.size() > 1)\<close>.\<close>

fun drain_spans :: "Term_Span list \<Rightarrow> string list \<Rightarrow> error + string list" where
  "drain_spans [] terms_v = Inr terms_v"
| "drain_spans [s] terms_v = Inr terms_v"
| "drain_spans (rhs # lhs # spans) terms_v =
     (case merge_spans lhs rhs terms_v of
        Inl e \<Rightarrow> Inl e
      | Inr (s, terms_v') \<Rightarrow> drain_spans (s # spans) terms_v')"

definition collect_terms :: "file_system \<Rightarrow> nat \<Rightarrow> error + string list" where
  "collect_terms fs batch_count =
     (case collect_batches fs [0..<batch_count] [] [] of
        Inl e \<Rightarrow> Inl e
      | Inr (spans, terms_v) \<Rightarrow> drain_spans spans terms_v)"

section \<open>The remapper\<close>

text \<open>
  Modelled from the spec: \<open>Term_Id\<close> of \<open>type_safe.hpp\<close> (not among the sources), "a 32-bit
  unsigned integer". Whatever its width, only its value modulo \<open>2^32\<close> reaches the index
  file, through \<open>static_cast<std::int32_t>\<close>. \<open>emplace\<close> keeps the entry of a key that is
  already present.
\<close>

fun reverse_mapping_loop ::
  "string list \<Rightarrow> (string \<rightharpoonup> u32) \<Rightarrow> u32 \<Rightarrow> (string \<rightharpoonup> u32)" where
  "reverse_mapping_loop [] mapping term_id = mapping"
| "reverse_mapping_loop (trm # terms_v) mapping term_id =
     reverse_mapping_loop terms_v
       (if mapping trm = None then mapping(trm \<mapsto> term_id) else mapping) (term_id + 1)"

definition reverse_mapping :: "string list \<Rightarrow> (string \<rightharpoonup> u32)" where
  "reverse_mapping terms_v = reverse_mapping_loop terms_v Map.empty 0"

text \<open>
  \<open>term_mapping[bterm]\<close>: \<open>operator[]\<close> of \<open>std::unordered_map\<close> yields a value-initialised
  id for an absent key (and stores it, which no later lookup can tell from its absence).
\<close>

definition term_lookup :: "(string \<rightharpoonup> u32) \<Rightarrow> string \<Rightarrow> u32" where
  "term_lookup term_mapping bterm = (case term_mapping bterm of Some g \<Rightarrow> g | None \<Rightarrow> 0)"

text \<open>
  Modelled from the spec: the iteration of \<open>writable_binary_collection\<close>
  (\<open>binary_collection.hpp\<close> is not among the sources) over a file that is "a uniform
  sequence of length-prefixed records": a length word \<open>n\<close>, then \<open>n\<close> words. A file that
  ends inside a record, and a local id outside the vector \<open>mapping\<close>, are error values.
  The argument is the file from the position of \<open>doc_iter\<close> on; the cast to
  \<open>std::int32_t\<close> and back keeps all 32 bits.
\<close>

fun remap_documents :: "u32 list \<Rightarrow> u32 list \<Rightarrow> error + u32 list" where
  "remap_documents mapping [] = Inr []"
| "remap_documents mapping (n # ws) =
     (if length ws < unat n then Inl Undefined_Behaviour
      else if list_ex (\<lambda>term_id. length mapping \<le> unat term_id) (take (unat n) ws)
      then Inl Undefined_Behaviour
      else (case remap_documents mapping (drop (unat n) ws) of
              Inl e \<Rightarrow> Inl e
            | Inr rest \<Rightarrow>
                Inr (n # map (\<lambda>term_id. mapping ! unat term_id) (take (unat n) ws) @ rest)))"

text \<open>
  The body of the remapping loop for one batch. \<open>++coll.begin()\<close> steps over the first
  record of the file, whatever its length word says.
\<close>

definition remap_batch :: "(string \<rightharpoonup> u32) \<Rightarrow> Index_Files \<Rightarrow> error + Index_Files" where
  "remap_batch term_mapping bf =
     (let batch_terms = read_string_vector (terms bf);
          mapping = map (term_lookup term_mapping) batch_terms
      in case index bf of
           [] \<Rightarrow> Inl Undefined_Behaviour
         | n # ws \<Rightarrow>
             if length ws < unat n then Inl Undefined_Behaviour
             else (case remap_documents mapping (drop (unat n) ws) of
                     Inl e \<Rightarrow> Inl e
                   | Inr ws' \<Rightarrow> Inr (bf\<lparr>index := n # take (unat n) ws @ ws'\<rparr>)))"

fun remap_batches ::
  "(string \<rightharpoonup> u32) \<Rightarrow> nat list \<Rightarrow> file_system \<Rightarrow> error + file_system" where
  "remap_batches term_mapping [] fs = Inr fs"
| "remap_batches term_mapping (batch # batches) fs =
     (case remap_batch term_mapping (fs batch) of
        Inl e \<Rightarrow> Inl e
      | Inr bf \<Rightarrow> remap_batches term_mapping batches (fs(batch := bf)))"

section \<open>Concatenation and the whole merge\<close>

text \<open>
  An output stream with its fail bit. \<open>os << is.rdbuf()\<close> sets the fail bit when it
  inserts no character, and a stream whose fail bit is set ignores every later insertion.
\<close>

record 'a ofstream =
  written :: "'a list"
  failbit :: bool

definition put_rdbuf :: "'a list \<Rightarrow> 'a ofstream \<Rightarrow> 'a ofstream" where
  "put_rdbuf src os =
     (if failbit os then os
      else if src = [] then os\<lparr>failbit := True\<rparr>
      else os\<lparr>written := written os @ src\<rparr>)"

text \<open>
  \<open>merge\<close>. \<open>is.ignore(8)\<close> skips two words, or as many as the file has. The result is
  the output files and the batch files as the remapping left them.
\<close>

definition merge :: "file_system \<Rightarrow> u32 \<Rightarrow> nat \<Rightarrow> error + Index_Files \<times> file_system" where
  "merge fs document_count batch_count =
     (let title_os = fold (\<lambda>batch. put_rdbuf (documents (fs batch))) [0..<batch_count]
                       \<lparr>written = [], failbit = False\<rparr>;
          url_os = fold (\<lambda>batch. put_rdbuf (urls (fs batch))) [0..<batch_count]
                     \<lparr>written = [], failbit = False\<rparr>
      in case collect_terms fs batch_count of
           Inl e \<Rightarrow> Inl e
         | Inr terms_v \<Rightarrow>
             (let term_os = concat (map (\<lambda>trm. trm @ [newline]) terms_v);
                  term_mapping = reverse_mapping terms_v
              in case remap_batches term_mapping [0..<batch_count] fs of
                   Inl e \<Rightarrow> Inl e
                 | Inr fs' \<Rightarrow>
                     (let os = fold (\<lambda>batch. put_rdbuf (drop 2 (index (fs' batch))))
                                 [0..<batch_count]
                                 \<lparr>written = write_header [] document_count, failbit = False\<rparr>
                      in Inr (\<lparr>index = written os, documents = written title_os,
                                urls = written url_os, terms = term_os\<rparr>, fs'))))"

section \<open>The ingestion driver\<close>

text \<open>
  The input stream together with \<open>next_record\<close> is the finite list of records that the
  successive calls return before the first \<open>std::nullopt\<close>. The loop \<open>while (true)\<close> of
  \<open>build\<close> yields the batches in the order of their dispatch, the final \<open>batch_number\<close>
  and the final \<open>first_document\<close>. Nothing in it looks at \<open>valid()\<close>. The comparison
  \<open>record_batch.size() == batch_size\<close> converts the signed \<open>batch_size\<close> to \<open>size_t\<close>.

  Modelled from the spec: \<open>Document_Id\<close> of \<open>type_safe.hpp\<close> (not among the sources), "a
  monotonically increasing 32-bit unsigned integer". Whatever its width, \<open>write_header\<close>
  takes the final count as a \<open>uint32_t\<close>.
\<close>

fun dispatch ::
  "int \<Rightarrow> Document_Record list \<Rightarrow> Document_Record list \<Rightarrow> nat \<Rightarrow> u32
     \<Rightarrow> Batch_Process list \<times> nat \<times> u32" where
  "dispatch batch_size [] record_batch batch_no first_doc =
     ([\<lparr>batch_number = batch_no, records = record_batch, first_document = first_doc\<rparr>],
      batch_no + 1, first_doc + of_nat (length record_batch))"
| "dispatch batch_size (rec # stream) record_batch batch_no first_doc =
     (let record_batch = record_batch @ [rec]
      in if int (length record_batch) = batch_size mod 2 ^ 64
         then (case dispatch batch_size stream [] (batch_no + 1)
                      (first_doc + word_of_int batch_size) of
                 (bps, r) \<Rightarrow>
                   (\<lparr>batch_number = batch_no, records = record_batch,
                      first_document = first_doc\<rparr> # bps, r))
         else dispatch batch_size stream record_batch batch_no first_doc)"

text \<open>
  The workers of the task group finish in an order the scheduler chooses; each writes
  only the files of its own batch number. A scheduler is the order in which the
  dispatched batches are run to completion before \<open>batch_group.wait()\<close> returns.
\<close>

type_synonym scheduler = "Batch_Process list \<Rightarrow> Batch_Process list"

text \<open>
  The bounded queue only makes the driver wait for a free slot; it has no part in what is
  written. \<open>build\<close> returns the four output files that \<open>merge\<close> wrote; \<open>remove_batches\<close>
  deletes the batch files afterwards and leaves the output files alone.
\<close>

definition run_batches ::
  "process_term_function_type \<Rightarrow> process_content_function_type \<Rightarrow> Batch_Process list
     \<Rightarrow> file_system" where
  "run_batches process_term process_content bps =
     fold (\<lambda>bp fs. fs(batch_number bp := run process_term process_content bp)) bps
       (\<lambda>batch. no_files)"

definition build ::
  "Document_Record list \<Rightarrow> process_term_function_type \<Rightarrow> process_content_function_type
     \<Rightarrow> int \<Rightarrow> nat \<Rightarrow> scheduler \<Rightarrow> error + Index_Files" where
  "build stream process_term process_content batch_size threads sched =
     (if threads < 2 then Inl Config_Invalid
      else (case dispatch batch_size stream [] 0 0 of
              (bps, batch_no, first_doc) \<Rightarrow>
                (case merge (run_batches process_term process_content (sched bps))
                        first_doc batch_no of
                   Inl e \<Rightarrow> Inl e
                 | Inr (out, fs) \<Rightarrow> Inr out)))"

section \<open>Notions used in the statements and proofs\<close>

text \<open>
  The range of the term vector that a span denotes, the adjacency of the spans on the
  stack (the top span ends where the vector ends, every span starts where the one below
  it ends, the bottom span starts at 0), and strict sortedness of every range.
\<close>

definition seg :: "string list \<Rightarrow> Term_Span \<Rightarrow> string list" where
  "seg terms_v s = take (span_last s - span_first s) (drop (span_first s) terms_v)"

fun chain :: "nat \<Rightarrow> Term_Span list \<Rightarrow> bool" where
  "chain e [] \<longleftrightarrow> e = 0"
| "chain e (s # spans) \<longleftrightarrow>
     span_last s = e \<and> span_first s \<le> span_last s \<and> chain (span_first s) spans"

definition strict_segs :: "string list \<Rightarrow> Term_Span list \<Rightarrow> bool" where
  "strict_segs terms_v spans \<longleftrightarrow> (\<forall>x\<in>set spans. sorted_wrt (<) (seg terms_v x))"

text \<open>
  The length words of a binary collection, as its iteration finds them: the first word,
  and the word after each record.
\<close>

fun length_words :: "u32 list \<Rightarrow> u32 list" where
  "length_words [] = []"
| "length_words (n # ws) = n # length_words (drop (unat n) ws)"

text \<open>
  "Maximal runs of ASCII alphanumeric characters", in the words of the specification:
  \<open>cur\<close> is the run being read.
\<close>

fun alnum_runs :: "string \<Rightarrow> string \<Rightarrow> string list" where
  "alnum_runs cur [] = (if cur = [] then [] else [cur])"
| "alnum_runs cur (c # cs) =
     (if isalnum c then alnum_runs (cur @ [c]) cs
      else (if cur = [] then [] else [cur]) @ alnum_runs [] cs)"

text \<open>
  "The first blank line", in the words of the specification: a newline followed, across
  white space other than newlines, by another newline. \<open>blank_line_at s\<close> tells whether
  \<open>s\<close> starts with one and yields the text from its second newline on; \<open>after_header\<close>
  looks for the first position where one starts.
\<close>

definition blank_line_at :: "string \<Rightarrow> string option" where
  "blank_line_at s =
     (case s of
        [] \<Rightarrow> None
      | c # t \<Rightarrow>
          if c = newline
          then (case dropWhile (\<lambda>c. isspace c \<and> c \<noteq> newline) t of
                  [] \<Rightarrow> None
                | d # u \<Rightarrow> if d = newline then Some (d # u) else None)
          else None)"

fun after_header :: "string \<Rightarrow> string option" where
  "after_header [] = None"
| "after_header (c # cs) =
     (case blank_line_at (c # cs) of Some body \<Rightarrow> Some body | None \<Rightarrow> after_header cs)"

text \<open>
  Modelled from the spec: an HTML cleaner that "strips tags", as an instance of the
  parameter \<open>cleantext\<close> (\<open>parsing::html::cleantext\<close> is not among the sources). It deletes
  every \<open><...>\<close>; \<open>in_tag\<close> tells whether the text read so far ends inside a tag.
\<close>

fun strip_tags :: "bool \<Rightarrow> string \<Rightarrow> string" where
  "strip_tags in_tag [] = []"
| "strip_tags in_tag (c # cs) =
     (if in_tag then strip_tags (c \<noteq> CHR ''>'') cs
      else if c = CHR ''<'' then strip_tags True cs
      else c # strip_tags False cs)"

text \<open>
  The notions of the specification's data model. \<open>put_lines\<close> writes one line per
  element. \<open>index_of\<close> is the position of an element in a list. \<open>normalised_terms\<close> is
  the result of "Split+Normalize" on a record. \<open>local_terms\<close> is a batch's dictionary "in
  the order the normalized term is first seen inside that batch"; \<open>enum\<close> pairs each of
  its terms with its position. \<open>encode_documents\<close> is the sequence of length-prefixed
  documents whose term-ids are positions in a dictionary.
\<close>

definition put_lines :: "string list \<Rightarrow> string" where
  "put_lines ts = concat (map (\<lambda>t. t @ [newline]) ts)"

fun index_of :: "'a list \<Rightarrow> 'a \<Rightarrow> nat" where
  "index_of [] x = 0"
| "index_of (y # ys) x = (if x = y then 0 else Suc (index_of ys x))"

definition insert_new :: "'a \<Rightarrow> 'a list \<Rightarrow> 'a list" where
  "insert_new t ts = (if t \<in> set ts then ts else ts @ [t])"

definition normalised_terms ::
  "process_term_function_type \<Rightarrow> process_content_function_type \<Rightarrow> Document_Record
     \<Rightarrow> string list" where
  "normalised_terms process_term process_content rec =
     map process_term (process_content (content rec))"

definition local_terms ::
  "process_term_function_type \<Rightarrow> process_content_function_type \<Rightarrow> Document_Record list
     \<Rightarrow> string list" where
  "local_terms process_term process_content recs =
     fold insert_new (concat (map (normalised_terms process_term process_content) recs)) []"

definition encode_documents :: "string list \<Rightarrow> string list list \<Rightarrow> u32 list" where
  "encode_documents dict docs =
     concat (map (\<lambda>ts. write_document [] (map (\<lambda>t. of_nat (index_of dict t)) ts)) docs)"

definition enum :: "string list \<Rightarrow> term_map" where
  "enum ts = zip ts (map of_nat [0..<length ts])"

text \<open>
  The "global term list": the "lexicographically sorted sequence of unique normalized
  terms" of the whole input. \<open>forward_index\<close> is the output the specification describes
  for a stream of records: the header with the number of records, every record's
  document with global term-ids, the \<open>trecid\<close> and \<open>url\<close> lines, and the global term list.
\<close>

definition global_terms ::
  "process_term_function_type \<Rightarrow> process_content_function_type \<Rightarrow> Document_Record list
     \<Rightarrow> string list" where
  "global_terms process_term process_content stream =
     sort (remdups (concat (map (normalised_terms process_term process_content) stream)))"

definition forward_index ::
  "process_term_function_type \<Rightarrow> process_content_function_type \<Rightarrow> Document_Record list
     \<Rightarrow> Index_Files" where
  "forward_index process_term process_content stream =
     \<lparr>index = 1 # of_nat (length stream)
         # encode_documents (global_terms process_term process_content stream)
             (map (normalised_terms process_term process_content) stream),
      documents = put_lines (map trecid stream),
      urls = put_lines (map url stream),
      terms = put_lines (global_terms process_term process_content stream)\<rparr>"

text \<open>
  Modelled from the spec: reading a binary collection, "a uniform sequence of
  length-prefixed records" (\<open>binary_collection.hpp\<close> is not among the sources). The first
  sequence of an index file is its header.
\<close>

fun read_sequences :: "u32 list \<Rightarrow> u32 list list" where
  "read_sequences [] = []"
| "read_sequences (n # ws) = take (unat n) ws # read_sequences (drop (unat n) ws)"

text \<open>
  Two inputs of the specification's scenarios: three plain-text records (Scenario 1) and
  a source whose second record has \<open>valid = false\<close> (Scenario 5).
\<close>

definition scenario_1 :: "Document_Record list" where
  "scenario_1 =
     [\<lparr>trecid = ''d0'', url = [], content = ''the quick brown fox'', valid = True\<rparr>,
      \<lparr>trecid = ''d1'', url = [], content = ''the lazy dog'', valid = True\<rparr>,
      \<lparr>trecid = ''d2'', url = [], content = ''quick brown dog'', valid = True\<rparr>]"

definition scenario_5 :: "Document_Record list" where
  "scenario_5 =
     [\<lparr>trecid = ''d0'', url = ''u0'', content = ''a b'', valid = True\<rparr>,
      \<lparr>trecid = ''d1'', url = ''u1'', content = ''b c'', valid = False\<rparr>,
      \<lparr>trecid = ''d2'', url = ''u2'', content = ''c a'', valid = True\<rparr>]"

text \<open>
  For batch files with repeated lines: every range is sorted, and a range that came out
  of a merge (its level is positive) has no duplicates. \<open>merged_top\<close> holds of a stack
  with at least two spans or with a single span that came out of a merge.
\<close>

definition sorted_segs :: "string list \<Rightarrow> Term_Span list \<Rightarrow> bool" where
  "sorted_segs terms_v spans \<longleftrightarrow>
     (\<forall>x\<in>set spans. sorted (seg terms_v x) \<and> (0 < span_lvl x \<longrightarrow> distinct (seg terms_v x)))"

definition merged_top :: "Term_Span list \<Rightarrow> bool" where
  "merged_top spans \<longleftrightarrow> (case spans of [] \<Rightarrow> False | s # rest \<Rightarrow> rest \<noteq> [] \<or> 0 < span_lvl s)"

text \<open>
  Two batches as the batch processor writes them: the document \<open>b a\<close> in batch 0 and the
  document \<open>c a c\<close> in batch 1, which share the term \<open>a\<close>.
\<close>

definition two_batches :: file_system where
  "two_batches = (\<lambda>batch.
     if batch = 0
     then run id parse_plaintext_content
            \<lparr>batch_number = 0,
             records = [\<lparr>trecid = ''d0'', url = ''u0'', content = ''b a'', valid = True\<rparr>],
             first_document = 0\<rparr>
     else if batch = 1
     then run id parse_plaintext_content
            \<lparr>batch_number = 1,
             records = [\<lparr>trecid = ''d1'', url = ''u1'', content = ''c a c'', valid = True\<rparr>],
             first_document = 1\<rparr>
     else no_files)"

section \<open>The span stack of the term merger\<close>

lemma set_inplace_merge: "set (inplace_merge xs ys) = set xs \<union> set ys"
  by (induction xs ys rule: inplace_merge.induct) auto

lemma sorted_inplace_merge:
  "sorted xs \<Longrightarrow> sorted ys \<Longrightarrow> sorted (inplace_merge xs ys)"
  by (induction xs ys rule: inplace_merge.induct) (auto simp: set_inplace_merge)

lemma strict_remdups_adj: "sorted xs \<Longrightarrow> sorted_wrt (<) (remdups_adj xs)"
proof (induction xs rule: remdups_adj.induct)
  case (3 x y xs)
  show ?case
  proof (cases "x = y")
    case True
    with 3 show ?thesis by simp
  next
    case False
    from "3.prems" have "sorted (y # xs)" and xy: "x \<le> y" and ys: "\<forall>z\<in>set xs. y \<le> z"
      by simp_all
    with False 3 have "sorted_wrt (<) (remdups_adj (y # xs))" by simp
    moreover have "\<forall>z\<in>set (y # xs). x < z"
      using False xy ys by auto
    ultimately show ?thesis
      using False by simp
  qed
qed simp_all

lemma chain_last_le: "chain e spans \<Longrightarrow> s \<in> set spans \<Longrightarrow> span_last s \<le> e"
proof (induction spans arbitrary: e)
  case Nil
  then show ?case by simp
next
  case (Cons a spans)
  show ?case
  proof (cases "s = a")
    case True
    with Cons.prems show ?thesis by simp
  next
    case False
    with Cons.prems have "s \<in> set spans" and "chain (span_first a) spans" by simp_all
    then have "span_last s \<le> span_first a" by (rule Cons.IH[rotated])
    with Cons.prems show ?thesis by simp
  qed
qed

lemma seg_prefix:
  "span_last s \<le> k \<Longrightarrow> k \<le> length xs \<Longrightarrow> seg (take k xs @ ys) s = seg xs s"
  by (simp add: seg_def take_drop min_def)

lemma merge_spans_inv:
  assumes "chain (length terms_v) (rhs # lhs # spans)"
  shows "\<exists>s' terms_v'. merge_spans lhs rhs terms_v = Inr (s', terms_v')
           \<and> chain (length terms_v') (s' # spans)
           \<and> seg terms_v' s' = remdups_adj (inplace_merge (seg terms_v lhs) (seg terms_v rhs))
           \<and> (\<forall>s\<in>set spans. seg terms_v' s = seg terms_v s)
           \<and> set terms_v' = set terms_v"
proof -
  let ?f = "span_first lhs"
  let ?m = "span_last lhs"
  let ?l = "span_last rhs"
  from assms have l: "?l = length terms_v" and m: "span_first rhs = ?m" and ml: "?m \<le> ?l"
    and fm: "?f \<le> ?m" and ch: "chain ?f spans"
    by simp_all
  let ?u = "remdups_adj (inplace_merge (seg terms_v lhs) (seg terms_v rhs))"
  let ?t = "take ?f terms_v @ ?u"
  let ?s = "\<lparr>span_first = ?f, span_last = length ?t, span_lvl = span_lvl lhs + 1\<rparr>"
  have segr: "seg terms_v rhs = take (?l - ?m) (drop ?m terms_v)"
    by (simp add: seg_def m)
  have res: "merge_spans lhs rhs terms_v = Inr (?s, ?t)"
    using l m ml fm by (simp add: merge_spans_def Let_def seg_def)
  have lenf: "length (take ?f terms_v) = ?f"
    using l ml fm by simp
  have c: "chain (length ?t) (?s # spans)"
    using ch lenf by simp
  have sg: "seg ?t ?s = ?u"
    using lenf by (simp add: seg_def)
  have rest: "\<forall>s\<in>set spans. seg ?t s = seg terms_v s"
  proof
    fix s assume "s \<in> set spans"
    with ch have "span_last s \<le> ?f" by (rule chain_last_le)
    moreover have "?f \<le> length terms_v" using l ml fm by simp
    ultimately show "seg ?t s = seg terms_v s" by (rule seg_prefix)
  qed
  have split: "terms_v = take ?f terms_v @ seg terms_v lhs @ seg terms_v rhs"
  proof -
    have "drop ?f terms_v = take (?m - ?f) (drop ?f terms_v) @ drop (?m - ?f) (drop ?f terms_v)"
      by (rule append_take_drop_id [symmetric])
    moreover have "drop (?m - ?f) (drop ?f terms_v) = drop ?m terms_v"
      using fm by simp
    moreover have "take (?l - ?m) (drop ?m terms_v) = drop ?m terms_v"
      using l by simp
    ultimately have "drop ?f terms_v = seg terms_v lhs @ seg terms_v rhs"
      by (simp add: seg_def m)
    then have "take ?f terms_v @ drop ?f terms_v = take ?f terms_v @ seg terms_v lhs @ seg terms_v rhs"
      by simp
    then show ?thesis
      by simp
  qed
  have "set ?t = set (take ?f terms_v) \<union> set (seg terms_v lhs) \<union> set (seg terms_v rhs)"
    by (simp add: set_inplace_merge Un_assoc)
  also have "\<dots> = set (take ?f terms_v @ seg terms_v lhs @ seg terms_v rhs)"
    by (simp add: Un_assoc)
  also have "\<dots> = set terms_v"
    using split by simp
  finally have st: "set ?t = set terms_v" .
  from res c sg rest st show ?thesis
    by blast
qed

lemma seg_append:
  "span_last s \<le> length xs \<Longrightarrow> seg (xs @ ys) s = seg xs s"
  using seg_prefix [of s "length xs" xs ys] by simp

lemma push_span_inv:
  assumes "chain (length terms_v) (s # spans)"
  shows "\<exists>spans' terms_v'. push_span s spans terms_v = Inr (spans', terms_v')
           \<and> chain (length terms_v') spans'
           \<and> set terms_v' = set terms_v
           \<and> (strict_segs terms_v (s # spans) \<longrightarrow> strict_segs terms_v' spans')"
  using assms
proof (induction spans arbitrary: s terms_v)
  case Nil
  then show ?case by simp
next
  case (Cons top_span spans)
  show ?case
  proof (cases "span_lvl top_span = span_lvl s")
    case False
    with Cons.prems show ?thesis by simp
  next
    case True
    from merge_spans_inv [OF Cons.prems]
    obtain s' t' where m: "merge_spans top_span s terms_v = Inr (s', t')"
      and c: "chain (length t') (s' # spans)"
      and sg: "seg t' s' = remdups_adj (inplace_merge (seg terms_v top_span) (seg terms_v s))"
      and rest: "\<forall>x\<in>set spans. seg t' x = seg terms_v x"
      and st: "set t' = set terms_v"
      by blast
    from Cons.IH [OF c]
    obtain spans' t'' where p: "push_span s' spans t' = Inr (spans', t'')"
      and c': "chain (length t'') spans'"
      and st': "set t'' = set t'"
      and str: "strict_segs t' (s' # spans) \<longrightarrow> strict_segs t'' spans'"
      by blast
    have "strict_segs t' (s' # spans)" if a: "strict_segs terms_v (s # top_span # spans)"
    proof -
      from a have "sorted (seg terms_v top_span)" and "sorted (seg terms_v s)"
        by (simp_all add: strict_segs_def strict_sorted_iff)
      then have "sorted_wrt (<) (seg t' s')"
        unfolding sg by (intro strict_remdups_adj sorted_inplace_merge)
      with a rest show ?thesis
        by (simp add: strict_segs_def)
    qed
    with str have "strict_segs terms_v (s # top_span # spans) \<longrightarrow> strict_segs t'' spans'"
      by blast
    with True m p c' st st' show ?thesis
      by simp
  qed
qed

lemma collect_batches_inv:
  assumes "chain (length terms_v) spans"
  shows "\<exists>spans' terms_v'. collect_batches fs batches spans terms_v = Inr (spans', terms_v')
           \<and> chain (length terms_v') spans'
           \<and> set terms_v' = set terms_v \<union> (\<Union>b\<in>set batches. set (getlines [] (terms (fs b))))
           \<and> (strict_segs terms_v spans
                \<longrightarrow> (\<forall>b\<in>set batches. distinct (getlines [] (terms (fs b))))
                \<longrightarrow> strict_segs terms_v' spans')"
  using assms
proof (induction batches arbitrary: spans terms_v)
  case Nil
  then show ?case by simp
next
  case (Cons batch batches)
  let ?lines = "getlines [] (terms (fs batch))"
  let ?t = "terms_v @ sort ?lines"
  let ?s = "\<lparr>span_first = length terms_v, span_last = length ?t, span_lvl = 0\<rparr>"
  have c: "chain (length ?t) (?s # spans)"
    using Cons.prems by simp
  from push_span_inv [OF c]
  obtain spans' t' where p: "push_span ?s spans ?t = Inr (spans', t')"
    and c': "chain (length t') spans'"
    and st: "set t' = set ?t"
    and str: "strict_segs ?t (?s # spans) \<longrightarrow> strict_segs t' spans'"
    by blast
  from Cons.IH [OF c']
  obtain spans'' t'' where r: "collect_batches fs batches spans' t' = Inr (spans'', t'')"
    and c'': "chain (length t'') spans''"
    and st': "set t'' = set t' \<union> (\<Union>b\<in>set batches. set (getlines [] (terms (fs b))))"
    and str': "strict_segs t' spans'
                \<longrightarrow> (\<forall>b\<in>set batches. distinct (getlines [] (terms (fs b))))
                \<longrightarrow> strict_segs t'' spans''"
    by blast
  have eq: "collect_batches fs (batch # batches) spans terms_v = Inr (spans'', t'')"
    using p r by (simp add: Let_def)
  have sets: "set t'' = set terms_v
                \<union> (\<Union>b\<in>set (batch # batches). set (getlines [] (terms (fs b))))"
    using st st' by auto
  have "strict_segs ?t (?s # spans)"
    if a: "strict_segs terms_v spans" and d: "distinct ?lines"
  proof -
    have "seg ?t ?s = sort ?lines"
      by (simp add: seg_def)
    with d have "sorted_wrt (<) (seg ?t ?s)"
      by (simp add: strict_sorted_iff)
    moreover have "seg ?t x = seg terms_v x" if "x \<in> set spans" for x
      using chain_last_le [OF Cons.prems that] by (rule seg_append)
    ultimately show ?thesis
      using a by (simp add: strict_segs_def)
  qed
  with str str' have "strict_segs terms_v spans
      \<longrightarrow> (\<forall>b\<in>set (batch # batches). distinct (getlines [] (terms (fs b))))
      \<longrightarrow> strict_segs t'' spans''"
    by simp
  with eq c'' sets show ?case
    by blast
qed

lemma drain_spans_inv:
  assumes "chain (length terms_v) spans"
  shows "\<exists>terms_v'. drain_spans spans terms_v = Inr terms_v'
           \<and> set terms_v' = set terms_v
           \<and> (strict_segs terms_v spans \<longrightarrow> sorted_wrt (<) terms_v')"
  using assms
proof (induction spans terms_v rule: drain_spans.induct)
  case (1 terms_v)
  then show ?case by simp
next
  case (2 v terms_v)
  then have "seg terms_v v = terms_v"
    by (simp add: seg_def)
  then show ?case
    by (simp add: strict_segs_def)
next
  case (3 rhs lhs spans terms_v)
  from merge_spans_inv [OF "3.prems"]
  obtain s' t' where m: "merge_spans lhs rhs terms_v = Inr (s', t')"
    and c: "chain (length t') (s' # spans)"
    and sg: "seg t' s' = remdups_adj (inplace_merge (seg terms_v lhs) (seg terms_v rhs))"
    and rest: "\<forall>x\<in>set spans. seg t' x = seg terms_v x"
    and st: "set t' = set terms_v"
    by blast
  from "3.IH" [OF m refl c]
  obtain t'' where d: "drain_spans (s' # spans) t' = Inr t''"
    and st': "set t'' = set t'"
    and str: "strict_segs t' (s' # spans) \<longrightarrow> sorted_wrt (<) t''"
    by blast
  have "strict_segs t' (s' # spans)" if a: "strict_segs terms_v (rhs # lhs # spans)"
  proof -
    from a have "sorted (seg terms_v lhs)" and "sorted (seg terms_v rhs)"
      by (simp_all add: strict_segs_def strict_sorted_iff)
    then have "sorted_wrt (<) (seg t' s')"
      unfolding sg by (intro strict_remdups_adj sorted_inplace_merge)
    with a rest show ?thesis
      by (simp add: strict_segs_def)
  qed
  with m d st st' str show ?case
    by simp
qed

lemma collect_terms_inv:
  "\<exists>ts. collect_terms fs n = Inr ts
      \<and> set ts = (\<Union>b<n. set (getlines [] (terms (fs b))))
      \<and> ((\<forall>b<n. distinct (getlines [] (terms (fs b)))) \<longrightarrow> sorted_wrt (<) ts)"
proof -
  have c0: "chain (length ([]::string list)) []" by simp
  from collect_batches_inv [OF c0, of fs "[0..<n]"]
  obtain spans t where b: "collect_batches fs [0..<n] [] [] = Inr (spans, t)"
    and c: "chain (length t) spans"
    and st: "set t = (\<Union>b\<in>set [0..<n]. set (getlines [] (terms (fs b))))"
    and str: "(\<forall>b\<in>set [0..<n]. distinct (getlines [] (terms (fs b)))) \<longrightarrow> strict_segs t spans"
    by (auto simp: strict_segs_def)
  from drain_spans_inv [OF c]
  obtain ts where d: "drain_spans spans t = Inr ts" and st': "set ts = set t"
    and str': "strict_segs t spans \<longrightarrow> sorted_wrt (<) ts"
    by blast
  have "collect_terms fs n = Inr ts"
    using b d by (simp add: collect_terms_def)
  moreover have "set ts = (\<Union>b<n. set (getlines [] (terms (fs b))))"
    using st st' by (simp add: lessThan_atLeast0)
  moreover have "(\<forall>b<n. distinct (getlines [] (terms (fs b)))) \<longrightarrow> sorted_wrt (<) ts"
    using str str' by simp
  ultimately show ?thesis
    by blast
qed

text \<open>
  C9. In \<open>collect_terms\<close>, every call of \<open>merge_spans\<close>, from \<open>push_span\<close> and from the
  final loop alike, finds \<open>lhs.last == rhs.first\<close>: for every content of the batch
  \<open>.terms\<close> files and every batch count the function returns a term vector, so neither the
  \<open>Expects\<close> assertion fires nor does an iterator leave the vector.
\<close>

theorem collect_terms_never_aborts:
  "collect_terms fs batch_count \<noteq> Inl Expects_Violation
   \<and> (\<exists>terms_v. collect_terms fs batch_count = Inr terms_v)"
  using collect_terms_inv [of fs batch_count] by auto

theorem collect_terms_never_aborts_witness:
  "collect_terms (\<lambda>batch. no_files\<lparr>terms := ''b\<newline>a\<newline>''\<rparr>) 3 \<noteq> Inl Expects_Violation
   \<and> (\<exists>terms_v. collect_terms (\<lambda>batch. no_files\<lparr>terms := ''b\<newline>a\<newline>''\<rparr>) 3 = Inr terms_v)"
  by (rule collect_terms_never_aborts)

section \<open>Configuration check\<close>

lemma remap_documents_not_config: "remap_documents mapping ws \<noteq> Inl Config_Invalid"
  by (induction mapping ws rule: remap_documents.induct) (auto split: sum.splits)

lemma remap_batch_not_config: "remap_batch term_mapping bf \<noteq> Inl Config_Invalid"
  using remap_documents_not_config
  by (auto simp: remap_batch_def Let_def split: list.splits sum.splits)

lemma remap_batches_not_config: "remap_batches term_mapping batches fs \<noteq> Inl Config_Invalid"
proof (induction batches arbitrary: fs)
  case Nil
  show ?case by simp
next
  case (Cons batch batches)
  show ?case
    using remap_batch_not_config [of term_mapping "fs batch"] Cons.IH
    by (auto split: sum.splits)
qed

lemma merge_not_config: "merge fs document_count batch_count \<noteq> Inl Config_Invalid"
proof -
  obtain ts where "collect_terms fs batch_count = Inr ts"
    using collect_terms_inv [of fs batch_count] by blast
  then show ?thesis
    using remap_batches_not_config
    by (auto simp: merge_def Let_def split: sum.splits)
qed

text \<open>
  C8, as the code has it. \<open>build\<close> aborts at startup exactly when \<open>threads < 2\<close>.
  \<open>batch_size\<close> is never checked: with at least two threads the build runs for every
  \<open>batch_size\<close>, zero and negative values included.
\<close>

theorem build_aborts_iff_too_few_threads:
  "build stream process_term process_content batch_size threads sched = Inl Config_Invalid
     \<longleftrightarrow> threads < 2"
  using merge_not_config
  by (auto simp: build_def split: prod.splits sum.splits)

theorem build_aborts_iff_too_few_threads_witness:
  "build [] id parse_plaintext_content 0 1 id = Inl Config_Invalid
   \<and> build [] id parse_plaintext_content 0 2 id \<noteq> Inl Config_Invalid"
  using build_aborts_iff_too_few_threads [of "[]" id parse_plaintext_content 0 1 id]
    build_aborts_iff_too_few_threads [of "[]" id parse_plaintext_content 0 2 id]
  by simp

text \<open>
  C8 as stated fails: with \<open>batch_size = 0\<close> or \<open>batch_size = -3\<close> and two threads the build
  does not abort; no batch ever fills, and all records go into the single final batch.
\<close>

theorem build_batch_size_unchecked_counterexample:
  "build [\<lparr>trecid = ''d0'', url = [], content = ''b a'', valid = True\<rparr>]
     id parse_plaintext_content 0 2 id
   = Inr \<lparr>index = [1, 1, 2, 1, 0], documents = ''d0\<newline>'', urls = ''\<newline>'',
          terms = ''a\<newline>b\<newline>''\<rparr>
   \<and> build [\<lparr>trecid = ''d0'', url = [], content = ''b a'', valid = True\<rparr>]
     id parse_plaintext_content (- 3) 2 id
   = Inr \<lparr>index = [1, 1, 2, 1, 0], documents = ''d0\<newline>'', urls = ''\<newline>'',
          terms = ''a\<newline>b\<newline>''\<rparr>"
  by code_simp

section \<open>Empty normalised terms\<close>

text \<open>
  C6, as the code has it. \<open>process\<close> does not test the normalised term for emptiness. A
  raw term whose normalised form is empty is treated like every other term: every
  occurrence appends the id of the empty string to the document's term-id sequence and
  leaves the ids before it as they are, and the empty string is a key of the map
  afterwards with that id. At its first occurrence in the batch the empty string
  receives the next local id and an empty line is appended to the batch's \<open>.terms\<close>; at a
  later occurrence the id is the one the map holds, and neither the map nor \<open>.terms\<close>
  changes.
\<close>

theorem process_keeps_empty_term:
  assumes "process_term raw = []"
  shows "\<exists>tid tmap' term_os'.
      process process_term raw (tmap, term_os, term_ids) = (tmap', term_os', term_ids @ [tid])
    \<and> map_of tmap' [] = Some tid
    \<and> (map_of tmap [] = None \<longrightarrow>
          tid = of_nat (length tmap) \<and> tmap' = tmap @ [([], tid)]
          \<and> term_os' = term_os @ [newline])
    \<and> (\<forall>old. map_of tmap [] = Some old \<longrightarrow>
          tid = old \<and> tmap' = tmap \<and> term_os' = term_os)"
  using assms by (auto simp: process_def Let_def map_add_def split: option.splits)

theorem process_keeps_empty_term_witness:
  "process (\<lambda>raw. []) ''x'' ([], [], []) = ([([], 0)], [newline], [0])
    \<and> process (\<lambda>raw. []) ''x'' ([(''a'', 0), ([], 1)], ''a\<newline>\<newline>'', [0, 0, 0])
        = ([(''a'', 0), ([], 1)], ''a\<newline>\<newline>'', [0, 0, 0, 1])"
proof
  have e: "(\<lambda>raw::string. []::string) ''x'' = []"
    by simp
  from process_keeps_empty_term [of "\<lambda>raw. []" "''x''" "[]" "[]" "[]", OF e]
  show "process (\<lambda>raw. []) ''x'' ([], [], []) = ([([], 0)], [newline], [0])"
    by auto
  from process_keeps_empty_term
    [of "\<lambda>raw. []" "''x''" "[(''a'', 0), ([], 1)]" "''a\<newline>\<newline>''" "[0, 0, 0]", OF e]
  show "process (\<lambda>raw. []) ''x'' ([(''a'', 0), ([], 1)], ''a\<newline>\<newline>'', [0, 0, 0])
        = ([(''a'', 0), ([], 1)], ''a\<newline>\<newline>'', [0, 0, 0, 1])"
    by auto
qed

text \<open>
  C6 as stated fails: a normaliser that returns the empty string for \<open>x\<close> makes the empty
  term the first entry of the map, a line of \<open>.terms\<close> and an entry of the document.
\<close>

theorem process_empty_term_counterexample:
  "process (\<lambda>raw. []) ''x'' ([], [], []) = ([([], 0)], [newline], [0])"
  by (simp add: process_def)

section \<open>The HTML splitter\<close>

lemma alnum_runs_split:
  "alnum_runs cur s =
     (if cur @ takeWhile isalnum s = [] then [] else [cur @ takeWhile isalnum s])
     @ alnum_runs [] (dropWhile isalnum s)"
  by (induction s arbitrary: cur) simp_all

lemma alnum_runs_skip:
  "alnum_runs [] (dropWhile (\<lambda>c. \<not> isalnum c) s) = alnum_runs [] s"
  by (induction s) simp_all

lemma emit_terms_alnum_runs: "emit_terms s = alnum_runs [] s"
proof (induction s rule: emit_terms.induct)
  case (1 s)
  show ?case
  proof (cases "s = []")
    case True
    then show ?thesis by (subst emit_terms.simps) simp
  next
    case False
    have ne: "s \<noteq> dropWhile isalnum s \<longleftrightarrow> takeWhile isalnum s \<noteq> []"
      by (metis append_self_conv2 takeWhile_dropWhile_id)
    have "emit_terms (dropWhile (\<lambda>c. \<not> isalnum c) (dropWhile isalnum s))
            = alnum_runs [] (dropWhile isalnum s)"
      using "1.IH" [OF False refl refl] by (simp add: alnum_runs_skip)
    then have "emit_terms s =
        (if takeWhile isalnum s \<noteq> [] then [takeWhile isalnum s] else [])
        @ alnum_runs [] (dropWhile isalnum s)"
      using False ne by (subst emit_terms.simps) (simp add: Let_def)
    also have "\<dots> = alnum_runs [] s"
      by (subst (2) alnum_runs_split) simp
    finally show ?thesis .
  qed
qed

lemma blank_line_at_other: "c \<noteq> newline \<Longrightarrow> blank_line_at (c # cs) = None"
  by (simp add: blank_line_at_def)

lemma after_header_dropWhile:
  assumes "\<And>c. P c \<Longrightarrow> c \<noteq> newline"
  shows "after_header (dropWhile P s) = after_header s"
proof (induction s)
  case Nil
  show ?case by simp
next
  case (Cons c cs)
  show ?case
  proof (cases "P c")
    case True
    then have "blank_line_at (c # cs) = None"
      using assms by (intro blank_line_at_other) 
    with True Cons.IH show ?thesis by simp
  next
    case False
    then show ?thesis by simp
  qed
qed

lemma blank_line_at_newline:
  "blank_line_at (newline # t) =
     (case dropWhile (\<lambda>c. \<not> (c = newline \<or> \<not> isspace c)) t of
        [] \<Rightarrow> None
      | d # u \<Rightarrow> if d = newline then Some (d # u) else None)"
proof -
  have "dropWhile (\<lambda>c. isspace c \<and> c \<noteq> newline) t = dropWhile (\<lambda>c. \<not> (c = newline \<or> \<not> isspace c)) t"
    by (rule arg_cong [where f = "\<lambda>P. dropWhile P t"]) auto
  then show ?thesis
    by (simp add: blank_line_at_def)
qed

lemma blank_case_None: assumes "\<not> (u \<noteq> [] \<and> hd u = newline)" 
  shows "(case u of
        [] \<Rightarrow> None
      | d # u \<Rightarrow> if d = newline then Some (d # u) else None) = None"
  using assms by (cases u) simp_all

lemma blank_case_Some: assumes "(u \<noteq> [] \<and> hd u = newline)" 
  shows "(case u of
        [] \<Rightarrow> None
      | d # u \<Rightarrow> if d = newline then Some (d # u) else None) = Some u"
  using assms by (cases u) simp_all

lemma skip_header_after_header:
  "after_header s = Some body \<Longrightarrow> skip_header s = Inr body"
proof (induction s rule: skip_header.induct)
  case (1 s)
  from "1.prems" have ne: "s \<noteq> []" by auto
  let ?d = "dropWhile (\<lambda>c. c \<noteq> newline) s"
  have ad: "after_header ?d = Some body"
    using "1.prems" by (simp add: after_header_dropWhile)
  then obtain x t where d: "?d = x # t" by (cases ?d) auto
  have x: "x = newline"
    using d hd_dropWhile [of "\<lambda>c. c \<noteq> newline" s] by auto
  let ?u = "dropWhile (\<lambda>c. \<not> (c = newline \<or> \<not> isspace c)) t"
  have step: "skip_header s =
      (if ?u \<noteq> [] \<and> hd ?u = newline then Inr ?u else skip_header ?u)"
    by (subst skip_header.simps) (simp only: ne d if_False list.case Let_def)
  have ah: "after_header (newline # t) = Some body"
    using ad by (simp only: d x)
  show ?case
  proof (cases "?u \<noteq> [] \<and> hd ?u = newline")
    case True
    then have "blank_line_at (newline # t) = Some ?u"
      unfolding blank_line_at_newline by (rule blank_case_Some)
    with ah have b: "body = ?u" by simp
    have "skip_header s = Inr ?u"
      using True by (subst step) (rule if_P)
    then show ?thesis
      by (simp only: b)
  next
    case False
    then have "blank_line_at (newline # t) = None"
      unfolding blank_line_at_newline by (rule blank_case_None)
    with ah have "after_header t = Some body" by simp
    moreover have "after_header ?u = after_header t"
      by (rule after_header_dropWhile) simp
    ultimately have "after_header ?u = Some body"
      by simp
    with False have r: "skip_header ?u = Inr body"
      by (rule "1.IH" [OF ne d refl])
    have "skip_header s = skip_header ?u"
      using False by (subst step) (rule if_not_P)
    then show ?thesis
      by (simp only: r)
  qed
qed

text \<open>
  Where the raw content has no newline at all, the search for the header leaves the
  string: \<open>std::find\<close> returns \<open>content.end()\<close> and \<open>std::next\<close> is applied to it.
\<close>

lemma skip_header_without_newline:
  assumes "s \<noteq> []" and "newline \<notin> set s"
  shows "skip_header s = Inl Undefined_Behaviour"
proof -
  have dw: "dropWhile (\<lambda>c. c \<noteq> newline) s = []"
    using assms(2) by (simp add: dropWhile_eq_Nil_conv) metis
  show ?thesis
    by (subst skip_header.simps) (simp only: assms(1) dw if_False list.case)
qed

text \<open>
  C7, as the code has it. \<open>parse_html_content\<close> removes the header from the raw content
  first: where the raw content has a blank line, it keeps the text from the second
  newline of the first blank line on. Only this remainder is passed to the HTML cleaner,
  and the terms emitted are exactly the maximal runs of ASCII alphanumeric characters
  of the cleaned remainder, in order.
\<close>

theorem parse_html_content_header_then_clean:
  assumes "after_header raw = Some body"
  shows "parse_html_content cleantext raw = Inr (alnum_runs [] (cleantext body))"
  using skip_header_after_header [OF assms]
  by (simp add: parse_html_content_def Let_def emit_terms_alnum_runs)

theorem parse_html_content_header_then_clean_witness:
  "after_header ''Header line 1\<newline>Header line 2\<newline>\<newline>Hello <b>world</b>!''
     = Some ''\<newline>Hello <b>world</b>!''
   \<and> parse_html_content (strip_tags False)
       ''Header line 1\<newline>Header line 2\<newline>\<newline>Hello <b>world</b>!''
     = Inr [''Hello'', ''world'']"
proof -
  have h: "after_header ''Header line 1\<newline>Header line 2\<newline>\<newline>Hello <b>world</b>!''
             = Some ''\<newline>Hello <b>world</b>!''"
    by code_simp
  have r: "alnum_runs [] (strip_tags False ''\<newline>Hello <b>world</b>!'') = [''Hello'', ''world'']"
    by code_simp
  from parse_html_content_header_then_clean [OF h, of "strip_tags False"] h r
  show ?thesis
    by simp
qed

text \<open>
  C7 as stated fails. Cleaning first and cutting the header from the cleaned text would
  find the blank line that appears once \<open><p>\<close> is stripped, and emit \<open>y\<close>, \<open>z\<close>, \<open>w\<close>
  (second conjunct); the code cuts the header from the raw text, where the first blank
  line comes after \<open>y z\<close>, and emits \<open>w\<close> alone (first conjunct).
\<close>

theorem parse_html_content_order_counterexample:
  "parse_html_content (strip_tags False) ''x\<newline><p>\<newline>y z\<newline>\<newline>w'' = Inr [''w'']
   \<and> alnum_runs []
        (case after_header (strip_tags False ''x\<newline><p>\<newline>y z\<newline>\<newline>w'') of
           None \<Rightarrow> [] | Some body \<Rightarrow> body)
      = [''y'', ''z'', ''w'']"
  by code_simp

section \<open>The frame of the remapping\<close>

lemma remap_documents_frame:
  "remap_documents mapping ws = Inr ws' \<Longrightarrow>
     length_words ws' = length_words ws \<and> length ws' = length ws"
proof (induction mapping ws arbitrary: ws' rule: remap_documents.induct)
  case (1 mapping)
  then show ?case by simp
next
  case (2 mapping n ws)
  let ?k = "unat n"
  from "2.prems" have le: "?k \<le> length ws"
    by (simp split: if_splits)
  from "2.prems" have ok: "\<not> list_ex (\<lambda>term_id. length mapping \<le> unat term_id) (take ?k ws)"
    by (simp split: if_splits)
  from "2.prems" le ok obtain rest where r: "remap_documents mapping (drop ?k ws) = Inr rest"
    and w: "ws' = n # map (\<lambda>term_id. mapping ! unat term_id) (take ?k ws) @ rest"
    by (auto split: sum.splits if_splits)
  from "2.IH" [OF _ ok r] le
  have ih: "length_words rest = length_words (drop ?k ws)" "length rest = length (drop ?k ws)"
    by simp_all
  show ?case
    using le ih by (simp add: w)
qed

lemma remap_batch_frame:
  assumes "remap_batch term_mapping bf = Inr bf'"
    and "index bf = 1 # doc_count # body"
  shows "\<exists>body'. index bf' = 1 # doc_count # body'
           \<and> length body' = length body \<and> length_words body' = length_words body"
    and "documents bf' = documents bf" and "urls bf' = urls bf" and "terms bf' = terms bf"
proof -
  let ?mapping = "map (term_lookup term_mapping) (read_string_vector (terms bf))"
  from assms obtain ws' where r: "remap_documents ?mapping body = Inr ws'"
    and b: "bf' = bf\<lparr>index := 1 # doc_count # ws'\<rparr>"
    by (auto simp: remap_batch_def Let_def split: sum.splits if_splits)
  from remap_documents_frame [OF r] b
  show "\<exists>body'. index bf' = 1 # doc_count # body'
           \<and> length body' = length body \<and> length_words body' = length_words body"
    by simp
  from b show "documents bf' = documents bf" and "urls bf' = urls bf" and "terms bf' = terms bf"
    by simp_all
qed

lemma remap_batches_each:
  "distinct batches \<Longrightarrow> remap_batches term_mapping batches fs = Inr fs' \<Longrightarrow>
     (\<forall>b\<in>set batches. remap_batch term_mapping (fs b) = Inr (fs' b))
     \<and> (\<forall>b. b \<notin> set batches \<longrightarrow> fs' b = fs b)"
proof (induction batches arbitrary: fs)
  case Nil
  then show ?case by simp
next
  case (Cons batch batches)
  from Cons.prems obtain bf where bf: "remap_batch term_mapping (fs batch) = Inr bf"
    and r: "remap_batches term_mapping batches (fs(batch := bf)) = Inr fs'"
    by (auto split: sum.splits)
  from Cons.prems have d: "distinct batches" and nb: "batch \<notin> set batches"
    by simp_all
  from Cons.IH [OF d r]
  have ih1: "\<forall>b\<in>set batches. remap_batch term_mapping ((fs(batch := bf)) b) = Inr (fs' b)"
    and ih2: "\<forall>b. b \<notin> set batches \<longrightarrow> fs' b = (fs(batch := bf)) b"
    by simp_all
  from ih2 nb have top: "fs' batch = bf" by simp
  have "remap_batch term_mapping (fs b) = Inr (fs' b)" if "b \<in> set batches" for b
  proof -
    from that nb have "b \<noteq> batch" by auto
    with ih1 that show ?thesis by auto
  qed
  moreover have "fs' b = fs b" if "b \<notin> set (batch # batches)" for b
    using ih2 that by simp
  ultimately show ?case
    using bf top by auto
qed

text \<open>
  C10. The remapping loop over the batches \<open>0 .. batch_count - 1\<close> leaves the header
  record of every batch index file (\<open>1\<close>, then the document count) in place, keeps the
  length of the file and every document's length word, and does not touch the batch's
  \<open>.documents\<close>, \<open>.urls\<close> and \<open>.terms\<close>: only payload words of documents change.
\<close>

theorem remapping_changes_payload_only:
  assumes "remap_batches term_mapping [0..<batch_count] fs = Inr fs'"
    and "index (fs batch) = 1 # doc_count # body"
  shows "(\<exists>body'. index (fs' batch) = 1 # doc_count # body'
            \<and> length body' = length body \<and> length_words body' = length_words body)
         \<and> documents (fs' batch) = documents (fs batch)
         \<and> urls (fs' batch) = urls (fs batch)
         \<and> terms (fs' batch) = terms (fs batch)"
proof (cases "batch < batch_count")
  case True
  with remap_batches_each [OF _ assms(1)]
  have "remap_batch term_mapping (fs batch) = Inr (fs' batch)"
    by simp
  from remap_batch_frame [OF this assms(2)] show ?thesis
    by simp
next
  case False
  with remap_batches_each [OF _ assms(1)] have "fs' batch = fs batch"
    by simp
  with assms(2) show ?thesis
    by simp
qed

theorem remapping_changes_payload_only_witness:
  "remap_batches (reverse_mapping [''a'', ''b'']) [0..<1]
       (\<lambda>batch. \<lparr>index = [1, 1, 2, 0, 1], documents = ''d0\<newline>'', urls = ''\<newline>'',
                  terms = ''b\<newline>a\<newline>''\<rparr>)
     = Inr ((\<lambda>batch. \<lparr>index = [1, 1, 2, 0, 1], documents = ''d0\<newline>'', urls = ''\<newline>'',
                       terms = ''b\<newline>a\<newline>''\<rparr>)
              (0 := \<lparr>index = [1, 1, 2, 1, 0], documents = ''d0\<newline>'', urls = ''\<newline>'',
                     terms = ''b\<newline>a\<newline>''\<rparr>))
   \<and> (\<exists>body'. index (((\<lambda>batch. \<lparr>index = [1, 1, 2, 0, 1], documents = ''d0\<newline>'',
                                     urls = ''\<newline>'', terms = ''b\<newline>a\<newline>''\<rparr>)
                          (0 := \<lparr>index = [1, 1, 2, 1, 0], documents = ''d0\<newline>'',
                                 urls = ''\<newline>'', terms = ''b\<newline>a\<newline>''\<rparr>)) (0::nat))
                 = 1 # 1 # body'
          \<and> length body' = length [2, 0, 1 :: u32]
          \<and> length_words body' = length_words [2, 0, 1 :: u32])"
proof -
  let ?bf = "\<lparr>index = [1, 1, 2, 0, 1], documents = ''d0\<newline>'', urls = ''\<newline>'',
              terms = ''b\<newline>a\<newline>''\<rparr>"
  let ?bf' = "\<lparr>index = [1, 1, 2, 1, 0], documents = ''d0\<newline>'', urls = ''\<newline>'',
              terms = ''b\<newline>a\<newline>''\<rparr>"
  have h: "remap_batches (reverse_mapping [''a'', ''b'']) [0..<1] (\<lambda>batch. ?bf)
             = Inr ((\<lambda>batch. ?bf)(0 := ?bf'))"
    by (simp add: remap_batch_def read_string_vector_def reverse_mapping_def term_lookup_def)
  have i: "index ((\<lambda>batch. ?bf) 0) = 1 # 1 # [2, 0, 1]"
    by simp
  from remapping_changes_payload_only [OF h i]
  have "\<exists>body'. index (((\<lambda>batch. ?bf)(0 := ?bf')) (0::nat)) = 1 # 1 # body'
          \<and> length body' = length [2, 0, 1 :: u32]
          \<and> length_words body' = length_words [2, 0, 1 :: u32]"
    by (rule conjunct1)
  with h show ?thesis
    by (rule conjI)
qed

section \<open>The batch processor in closed form\<close>

lemma getlines_line:
  "newline \<notin> set t \<Longrightarrow> getlines cur (t @ newline # rest) = (cur @ t) # getlines [] rest"
  by (induction t arbitrary: cur) auto

lemma getlines_put_lines:
  "\<forall>t\<in>set ts. newline \<notin> set t \<Longrightarrow> getlines [] (put_lines ts) = ts"
proof (induction ts)
  case Nil
  show ?case by (simp add: put_lines_def)
next
  case (Cons t ts)
  then have "getlines [] (t @ newline # put_lines ts) = ([] @ t) # getlines [] (put_lines ts)"
    by (intro getlines_line) simp
  with Cons show ?case
    by (simp add: put_lines_def)
qed

lemma put_lines_append: "put_lines (xs @ ys) = put_lines xs @ put_lines ys"
  by (simp add: put_lines_def)

lemma index_of_less: "x \<in> set xs \<Longrightarrow> index_of xs x < length xs"
  by (induction xs) auto

lemma nth_index_of: "x \<in> set xs \<Longrightarrow> xs ! index_of xs x = x"
  by (induction xs) auto

lemma index_of_append: "x \<in> set xs \<Longrightarrow> index_of (xs @ ys) x = index_of xs x"
  by (induction xs) auto

lemma index_of_snoc: "x \<notin> set xs \<Longrightarrow> index_of (xs @ [x]) x = length xs"
  by (induction xs) auto

lemma enum_snoc: "enum (ts @ [t]) = enum ts @ [(t, of_nat (length ts))]"
  by (simp add: enum_def)

lemma length_enum: "length (enum ts) = length ts"
  by (simp add: enum_def)

lemma map_of_enum:
  "map_of (enum ts) t = (if t \<in> set ts then Some (of_nat (index_of ts t)) else None)"
proof (induction ts rule: rev_induct)
  case Nil
  show ?case by (simp add: enum_def)
next
  case (snoc x xs)
  show ?case
    using snoc
    by (auto simp: enum_snoc map_add_def index_of_append index_of_snoc split: option.splits)
qed

lemma insert_new_old: "t \<in> set ts \<Longrightarrow> insert_new t ts = ts"
  by (simp add: insert_new_def)

lemma insert_new_fresh: "t \<notin> set ts \<Longrightarrow> insert_new t ts = ts @ [t]"
  by (simp add: insert_new_def)

lemma fold_insert_new_prefix: "\<exists>ms. fold insert_new ts xs = xs @ ms"
proof (induction ts arbitrary: xs)
  case Nil
  show ?case by simp
next
  case (Cons t ts)
  obtain ms where "fold insert_new ts (insert_new t xs) = insert_new t xs @ ms"
    using Cons [of "insert_new t xs"] by blast
  then show ?case
    by (cases "t \<in> set xs") (simp_all add: insert_new_old insert_new_fresh)
qed

lemma set_fold_insert_new: "set (fold insert_new ts xs) = set xs \<union> set ts"
proof (induction ts arbitrary: xs)
  case Nil
  show ?case by simp
next
  case (Cons t ts)
  show ?case
    by (cases "t \<in> set xs") (auto simp: Cons insert_new_old insert_new_fresh)
qed

lemma distinct_fold_insert_new: "distinct xs \<Longrightarrow> distinct (fold insert_new ts xs)"
proof (induction ts arbitrary: xs)
  case Nil
  then show ?case by simp
next
  case (Cons t ts)
  show ?case
    using Cons.prems
    by (cases "t \<in> set xs") (auto simp: insert_new_old insert_new_fresh intro!: Cons.IH)
qed

lemma index_of_fold_insert_new:
  "x \<in> set xs \<Longrightarrow> index_of (fold insert_new ts xs) x = index_of xs x"
  using fold_insert_new_prefix [of ts xs] by (auto simp: index_of_append)

lemma process_enum:
  "process process_term raw (enum ts, put_lines ts, ids) =
     (enum (insert_new (process_term raw) ts), put_lines (insert_new (process_term raw) ts),
      ids @ [of_nat (index_of (insert_new (process_term raw) ts) (process_term raw))])"
  by (simp add: process_def map_of_enum insert_new_def enum_snoc length_enum put_lines_append
      index_of_snoc put_lines_def Let_def)

lemma fold_process_enum:
  "fold (process process_term) raws (enum ts, put_lines ts, ids) =
     (enum (fold insert_new (map process_term raws) ts),
      put_lines (fold insert_new (map process_term raws) ts),
      ids @ map (\<lambda>raw. of_nat (index_of (fold insert_new (map process_term raws) ts)
                                  (process_term raw))) raws)"
proof (induction raws arbitrary: ts ids)
  case Nil
  show ?case by simp
next
  case (Cons raw raws)
  let ?t = "process_term raw"
  let ?ts1 = "insert_new ?t ts"
  have "?t \<in> set ?ts1"
    by (simp add: insert_new_def)
  then have "index_of (fold insert_new (map process_term raws) ?ts1) ?t = index_of ?ts1 ?t"
    by (rule index_of_fold_insert_new)
  then show ?case
    by (simp add: process_enum Cons)
qed

lemma write_document_append: "write_document os xs = os @ write_document [] xs"
  by (simp add: write_document_def Let_def)

lemma write_header_eq: "write_header [] n = [1, n]"
  by (simp add: write_header_def write_document_def)

lemma encode_documents_Cons:
  "encode_documents dict (ts # docs) =
     write_document [] (map (\<lambda>t. of_nat (index_of dict t)) ts) @ encode_documents dict docs"
  by (simp add: encode_documents_def)

lemma run_record_enum:
  assumes "terms fs = put_lines ts"
  shows "run_record process_term process_content rec (fs, enum ts) =
     (\<lparr>index = index fs @ write_document []
                 (map (\<lambda>t. of_nat (index_of
                    (fold insert_new (normalised_terms process_term process_content rec) ts) t))
                    (normalised_terms process_term process_content rec)),
       documents = documents fs @ trecid rec @ [newline],
       urls = urls fs @ url rec @ [newline],
       terms = put_lines (fold insert_new (normalised_terms process_term process_content rec) ts)\<rparr>,
      enum (fold insert_new (normalised_terms process_term process_content rec) ts))"
  using write_document_append [of "index fs"]
  by (simp add: run_record_def assms fold_process_enum normalised_terms_def Let_def comp_def)

lemma fold_run_record_enum:
  assumes "terms fs = put_lines ts"
  shows "fold (run_record process_term process_content) recs (fs, enum ts) =
     (\<lparr>index = index fs @ encode_documents
                 (fold insert_new
                    (concat (map (normalised_terms process_term process_content) recs)) ts)
                 (map (normalised_terms process_term process_content) recs),
       documents = documents fs @ put_lines (map trecid recs),
       urls = urls fs @ put_lines (map url recs),
       terms = put_lines (fold insert_new
                    (concat (map (normalised_terms process_term process_content) recs)) ts)\<rparr>,
      enum (fold insert_new
               (concat (map (normalised_terms process_term process_content) recs)) ts))"
  using assms
proof (induction recs arbitrary: fs ts)
  case Nil
  then show ?case by (simp add: encode_documents_def put_lines_def)
next
  case (Cons r recs)
  let ?norm = "normalised_terms process_term process_content"
  let ?ts1 = "fold insert_new (?norm r) ts"
  let ?ts' = "fold insert_new (concat (map ?norm recs)) ?ts1"
  let ?fs1 = "\<lparr>index = index fs @ write_document []
                 (map (\<lambda>t. of_nat (index_of ?ts1 t)) (?norm r)),
       documents = documents fs @ trecid r @ [newline],
       urls = urls fs @ url r @ [newline],
       terms = put_lines ?ts1\<rparr>"
  have step: "run_record process_term process_content r (fs, enum ts) = (?fs1, enum ?ts1)"
    using Cons.prems by (rule run_record_enum)
  have t1: "terms ?fs1 = put_lines ?ts1" by simp
  have stable: "map (\<lambda>t. (of_nat (index_of ?ts1 t) :: u32)) (?norm r)
                  = map (\<lambda>t. of_nat (index_of ?ts' t)) (?norm r)"
  proof (rule map_cong [OF refl])
    fix t assume "t \<in> set (?norm r)"
    then have "t \<in> set ?ts1" by (simp add: set_fold_insert_new)
    then show "(of_nat (index_of ?ts1 t) :: u32) = of_nat (index_of ?ts' t)"
      by (simp add: index_of_fold_insert_new)
  qed
  have "fold (run_record process_term process_content) (r # recs) (fs, enum ts)
          = fold (run_record process_term process_content) recs (?fs1, enum ?ts1)"
    by (simp add: step)
  also note Cons.IH [OF t1]
  finally show ?case
    by (simp add: encode_documents_Cons stable put_lines_def)
qed

lemma run_eq:
  "run process_term process_content bp =
     \<lparr>index = 1 # of_nat (length (records bp))
         # encode_documents (local_terms process_term process_content (records bp))
             (map (normalised_terms process_term process_content) (records bp)),
      documents = put_lines (map trecid (records bp)),
      urls = put_lines (map url (records bp)),
      terms = put_lines (local_terms process_term process_content (records bp))\<rparr>"
proof -
  let ?fs = "no_files\<lparr>index := write_header [] (of_nat (length (records bp)))\<rparr>"
  have "terms ?fs = put_lines []"
    by (simp add: no_files_def put_lines_def)
  moreover have "enum [] = []"
    by (simp add: enum_def)
  ultimately have "fold (run_record process_term process_content) (records bp) (?fs, [])
      = (\<lparr>index = index ?fs @ encode_documents
                 (local_terms process_term process_content (records bp))
                 (map (normalised_terms process_term process_content) (records bp)),
       documents = documents ?fs @ put_lines (map trecid (records bp)),
       urls = urls ?fs @ put_lines (map url (records bp)),
       terms = put_lines (local_terms process_term process_content (records bp))\<rparr>,
      enum (local_terms process_term process_content (records bp)))"
    using fold_run_record_enum [of ?fs "[]" process_term process_content "records bp"]
    by (simp add: local_terms_def)
  then show ?thesis
    by (simp add: run_def write_header_eq no_files_def)
qed

section \<open>Remapping the output of the batch processor\<close>

lemma unat_of_nat_u32: "i < 2 ^ 32 \<Longrightarrow> unat (of_nat i :: u32) = i"
  by (simp add: unat_of_nat)

lemma unat_of_nat_le: "unat (of_nat i :: u32) \<le> i"
  by (simp add: unat_of_nat)

lemma reverse_mapping_loop_eq:
  "reverse_mapping_loop ts m k t =
     (case m t of
        Some v \<Rightarrow> Some v
      | None \<Rightarrow> if t \<in> set ts then Some (k + of_nat (index_of ts t)) else None)"
proof (induction ts arbitrary: m k)
  case Nil
  show ?case by (simp split: option.splits)
next
  case (Cons x xs)
  show ?case
    by (auto simp: Cons split: option.splits)
qed

lemma reverse_mapping_eq:
  "reverse_mapping ts t = (if t \<in> set ts then Some (of_nat (index_of ts t)) else None)"
  by (simp add: reverse_mapping_def reverse_mapping_loop_eq)

lemma term_lookup_reverse_mapping:
  "t \<in> set ts \<Longrightarrow> term_lookup (reverse_mapping ts) t = of_nat (index_of ts t)"
  by (simp add: term_lookup_def reverse_mapping_eq)

lemma write_document_eq:
  "write_document [] xs = of_nat (length xs) # take (unat (of_nat (length xs) :: u32)) xs"
  by (simp add: write_document_def Let_def)

lemma remap_documents_encoded:
  assumes len: "length dict \<le> 2 ^ 32"
    and sub: "\<forall>ts\<in>set docs. set ts \<subseteq> set dict"
  shows "remap_documents (map f dict) (encode_documents dict docs)
           = Inr (concat (map (\<lambda>ts. write_document [] (map f ts)) docs))"
  using sub
proof (induction docs)
  case Nil
  show ?case by (simp add: encode_documents_def)
next
  case (Cons ts docs)
  let ?ids = "map (\<lambda>t. of_nat (index_of dict t) :: u32) ts"
  let ?n = "of_nat (length ts) :: u32"
  let ?rest = "encode_documents dict docs"
  have enc: "encode_documents dict (ts # docs) = ?n # take (unat ?n) ?ids @ ?rest"
    by (simp add: encode_documents_Cons write_document_eq)
  have k: "length (take (unat ?n) ?ids) = unat ?n"
    using unat_of_nat_le [of "length ts"] by simp
  have tk: "take (unat ?n) (take (unat ?n) ?ids @ ?rest) = take (unat ?n) ?ids"
    using k by simp
  have dr: "drop (unat ?n) (take (unat ?n) ?ids @ ?rest) = ?rest"
    using k by simp
  have le: "\<not> length (take (unat ?n) ?ids @ ?rest) < unat ?n"
    using k by simp
  have un: "unat (of_nat (index_of dict t) :: u32) = index_of dict t" if "t \<in> set ts" for t
  proof -
    from that Cons.prems have "index_of dict t < length dict"
      by (auto intro: index_of_less)
    with len show ?thesis
      by (intro unat_of_nat_u32) simp
  qed
  have inr: "\<not> list_ex (\<lambda>term_id. length (map f dict) \<le> unat term_id) (take (unat ?n) ?ids)"
  proof -
    have "unat w < length dict" if "w \<in> set ?ids" for w
    proof -
      from that obtain t where t: "t \<in> set ts" and w: "w = of_nat (index_of dict t)"
        by auto
      from t Cons.prems have "index_of dict t < length dict"
        by (auto intro: index_of_less)
      with un [OF t] w show ?thesis by simp
    qed
    then have "\<forall>w\<in>set (take (unat ?n) ?ids). \<not> length (map f dict) \<le> unat w"
      by (fastforce dest: in_set_takeD)
    then show ?thesis
      by (simp only: list_ex_iff bex_simps)
  qed
  have mp: "map (\<lambda>term_id. map f dict ! unat term_id) ?ids = map f ts"
  proof -
    have "map f dict ! unat (of_nat (index_of dict t) :: u32) = f t" if "t \<in> set ts" for t
    proof -
      from that Cons.prems have m: "t \<in> set dict" by auto
      then have "index_of dict t < length dict" by (rule index_of_less)
      with m un [OF that] show ?thesis
        by (simp add: nth_index_of)
    qed
    then show ?thesis
      by (simp add: comp_def)
  qed
  have ih: "remap_documents (map f dict) ?rest
              = Inr (concat (map (\<lambda>ts. write_document [] (map f ts)) docs))"
    using Cons by simp
  have "remap_documents (map f dict) (?n # (take (unat ?n) ?ids @ ?rest))
          = Inr (?n # map (\<lambda>term_id. map f dict ! unat term_id) (take (unat ?n) ?ids)
                   @ concat (map (\<lambda>ts. write_document [] (map f ts)) docs))"
    using le inr by (simp only: remap_documents.simps tk dr ih if_False sum.case)
  also have "map (\<lambda>term_id. map f dict ! unat term_id) (take (unat ?n) ?ids)
               = take (unat ?n) (map f ts)"
    by (simp only: take_map [symmetric] mp)
  finally show ?case
    by (simp add: enc write_document_eq)
qed


lemma set_local_terms:
  "set (local_terms process_term process_content recs)
     = (\<Union>r\<in>set recs. set (normalised_terms process_term process_content r))"
  by (simp add: local_terms_def set_fold_insert_new)

lemma distinct_local_terms: "distinct (local_terms process_term process_content recs)"
  by (simp add: local_terms_def distinct_fold_insert_new)

lemma remap_batch_run:
  assumes nf: "\<forall>r\<in>set (records bp).
                 \<forall>t\<in>set (normalised_terms process_term process_content r). newline \<notin> set t"
    and sub: "set (local_terms process_term process_content (records bp)) \<subseteq> set dict"
    and len: "length (local_terms process_term process_content (records bp)) \<le> 2 ^ 32"
  shows "remap_batch (reverse_mapping dict) (run process_term process_content bp)
     = Inr ((run process_term process_content bp)
              \<lparr>index := 1 # of_nat (length (records bp))
                  # encode_documents dict
                      (map (normalised_terms process_term process_content) (records bp))\<rparr>)"
proof -
  let ?norm = "normalised_terms process_term process_content"
  let ?L = "local_terms process_term process_content (records bp)"
  let ?f = "term_lookup (reverse_mapping dict)"
  let ?docs = "map ?norm (records bp)"
  have lines: "read_string_vector (put_lines ?L) = ?L"
    unfolding read_string_vector_def
    using nf by (intro getlines_put_lines) (auto simp: set_local_terms)
  have docs: "\<forall>ts\<in>set ?docs. set ts \<subseteq> set ?L"
    by (auto simp: set_local_terms)
  have "remap_documents (map ?f ?L) (encode_documents ?L ?docs)
          = Inr (concat (map (\<lambda>ts. write_document [] (map ?f ts)) ?docs))"
    using len docs by (rule remap_documents_encoded)
  moreover have "concat (map (\<lambda>ts. write_document [] (map ?f ts)) ?docs)
                   = encode_documents dict ?docs"
  proof -
    have "write_document [] (map ?f ts)
            = write_document [] (map (\<lambda>t. of_nat (index_of dict t)) ts)"
      if "ts \<in> set ?docs" for ts
    proof -
      have "map ?f ts = map (\<lambda>t. of_nat (index_of dict t)) ts"
      proof (rule map_cong [OF refl])
        fix t assume "t \<in> set ts"
        with that docs sub have "t \<in> set dict" by blast
        then show "?f t = of_nat (index_of dict t)"
          by (rule term_lookup_reverse_mapping)
      qed
      then show ?thesis
        by (simp only:)
    qed
    then have "map (\<lambda>ts. write_document [] (map ?f ts)) ?docs
                 = map (\<lambda>ts. write_document [] (map (\<lambda>t. of_nat (index_of dict t)) ts)) ?docs"
      by (intro map_cong [OF refl])
    then show ?thesis
      by (simp only: encode_documents_def)
  qed
  ultimately have r: "remap_documents (map ?f ?L) (encode_documents ?L ?docs)
                        = Inr (encode_documents dict ?docs)"
    by simp
  show ?thesis
    by (simp add: remap_batch_def run_eq lines r)
qed

lemma word_of_int_mod_64: "(word_of_int (b mod 2 ^ 64) :: u32) = word_of_int b"
proof -
  have "take_bit 32 (b mod 2 ^ 64) = take_bit 32 b"
    by (simp add: take_bit_eq_mod mod_mod_cancel)
  then show ?thesis
    by (simp add: word_of_int_eq_iff)
qed

lemma dispatch_inv:
  assumes "dispatch batch_size stream record_batch batch_no first_doc = (bps, batch_no', first_doc')"
  shows "concat (map records bps) = record_batch @ stream
    \<and> map batch_number bps = [batch_no..<batch_no']
    \<and> bps \<noteq> []
    \<and> first_doc' = first_doc + of_nat (length record_batch + length stream)
    \<and> (\<forall>bp\<in>set (butlast bps). records bp \<noteq> [])"
  using assms
proof (induction stream arbitrary: record_batch batch_no first_doc bps batch_no' first_doc')
  case Nil
  then show ?case by auto
next
  case (Cons r stream)
  let ?rb = "record_batch @ [r]"
  show ?case
  proof (cases "int (length ?rb) = batch_size mod 2 ^ 64")
    case False
    with Cons.prems have "dispatch batch_size stream ?rb batch_no first_doc = (bps, batch_no', first_doc')"
      by (simp add: Let_def)
    from Cons.IH [OF this] show ?thesis
      by simp
  next
    case True
    then have w: "(word_of_int batch_size :: u32) = of_nat (length ?rb)"
      using word_of_int_mod_64 [of batch_size] by (metis of_int_of_nat_eq)
    obtain bps1 where d: "dispatch batch_size stream [] (batch_no + 1)
                             (first_doc + word_of_int batch_size) = (bps1, batch_no', first_doc')"
      and b: "bps = \<lparr>batch_number = batch_no, records = ?rb, first_document = first_doc\<rparr> # bps1"
      using Cons.prems True by (auto simp: Let_def split: prod.splits)
    from Cons.IH [OF d]
    have c: "concat (map records bps1) = stream"
      and n: "map batch_number bps1 = [batch_no + 1..<batch_no']"
      and ne: "bps1 \<noteq> []"
      and f: "first_doc' = first_doc + word_of_int batch_size + of_nat (length stream)"
      and nl: "\<forall>bp\<in>set (butlast bps1). records bp \<noteq> []"
      by simp_all
    from n ne have "[batch_no + 1..<batch_no'] \<noteq> []"
      by (metis map_is_Nil_conv)
    then have lt: "batch_no < batch_no'"
      by simp
    have "map batch_number bps = [batch_no..<batch_no']"
      using n lt by (simp add: b upt_conv_Cons)
    moreover have "first_doc' = first_doc + of_nat (length record_batch + length (r # stream))"
      using f w by simp
    ultimately show ?thesis
      using c ne nl by (simp add: b)
  qed
qed

lemma fold_put_rdbuf:
  assumes "\<forall>x\<in>set (butlast chunks). x \<noteq> []"
  shows "written (fold put_rdbuf chunks \<lparr>written = w, failbit = False\<rparr>) = w @ concat chunks"
  using assms
proof (induction chunks arbitrary: w)
  case Nil
  show ?case by simp
next
  case (Cons x chunks)
  show ?case
  proof (cases "chunks = []")
    case True
    then show ?thesis by (simp add: put_rdbuf_def)
  next
    case False
    with Cons.prems have "x \<noteq> []" and "\<forall>x\<in>set (butlast chunks). x \<noteq> []"
      by simp_all
    then show ?thesis
      using Cons.IH [of "w @ x"] by (simp add: put_rdbuf_def)
  qed
qed

lemma run_batches_nth:
  assumes nums: "map batch_number bps = [0..<length bps]"
    and fair: "set (sched bps) = set bps"
    and i: "i < length bps"
  shows "run_batches process_term process_content (sched bps) i
           = run process_term process_content (bps ! i)"
proof -
  let ?F = "run process_term process_content"
  have inj: "inj_on batch_number (set bps)"
    using nums by (metis distinct_map distinct_upt)
  have key: "fold (\<lambda>bp fs. fs(batch_number bp := ?F bp)) xs fs0 (batch_number x) = ?F x"
    if "set xs \<subseteq> set bps" and "x \<in> set xs" for xs x and fs0 :: file_system
    using that
  proof (induction xs arbitrary: fs0 rule: rev_induct)
    case Nil
    then show ?case by simp
  next
    case (snoc y ys)
    show ?case
    proof (cases "x = y")
      case True
      then show ?thesis by simp
    next
      case False
      with snoc.prems have xin: "x \<in> set ys" and "x \<in> set bps" and "y \<in> set bps"
        by auto
      with inj False have "batch_number x \<noteq> batch_number y"
        by (auto dest: inj_onD)
      with snoc.IH [OF _ xin] snoc.prems show ?thesis
        by simp
    qed
  qed
  from i have mem: "bps ! i \<in> set (sched bps)"
    using fair by simp
  from nums i have num: "batch_number (bps ! i) = i"
    by (metis add_0 nth_map nth_upt length_map)
  from key [OF _ mem] fair num show ?thesis
    by (simp add: run_batches_def)
qed

section \<open>The whole build in closed form\<close>

lemma map_upt_conv:
  "\<forall>i<length xs. f i = g (xs ! i) \<Longrightarrow> map f [0..<length xs] = map g xs"
  by (rule nth_equalityI) auto

lemma encode_documents_append:
  "encode_documents dict (xs @ ys) = encode_documents dict xs @ encode_documents dict ys"
  by (simp add: encode_documents_def)

lemma encode_documents_concat:
  "concat (map (\<lambda>bp. encode_documents dict (map f (records bp))) bps)
     = encode_documents dict (map f (concat (map records bps)))"
  by (induction bps) (simp_all add: encode_documents_append encode_documents_def)

lemma encode_documents_Nil_iff: "encode_documents dict docs = [] \<longleftrightarrow> docs = []"
  by (cases docs) (simp_all add: encode_documents_def write_document_eq)

lemma UN_nth: "(\<Union>i<length xs. F (xs ! i)) = (\<Union>x\<in>set xs. F x)"
proof (intro equalityI subsetI)
  fix y assume "y \<in> (\<Union>i<length xs. F (xs ! i))"
  then obtain i where "i < length xs" and "y \<in> F (xs ! i)" by auto
  then show "y \<in> (\<Union>x\<in>set xs. F x)"
    using nth_mem by blast
next
  fix y assume "y \<in> (\<Union>x\<in>set xs. F x)"
  then obtain x where "x \<in> set xs" and y: "y \<in> F x" by auto
  then obtain i where "i < length xs" and "xs ! i = x"
    by (auto simp: in_set_conv_nth)
  with y show "y \<in> (\<Union>i<length xs. F (xs ! i))" by auto
qed

lemma fold_put_rdbuf_upt:
  assumes "map f [0..<n] = chunks" and "\<forall>x\<in>set (butlast chunks). x \<noteq> []"
  shows "written (fold (\<lambda>batch. put_rdbuf (f batch)) [0..<n] \<lparr>written = w, failbit = False\<rparr>)
           = w @ concat chunks"
proof -
  have "fold (\<lambda>batch. put_rdbuf (f batch)) [0..<n] = fold put_rdbuf (map f [0..<n])"
    by (simp add: fold_map comp_def)
  with fold_put_rdbuf [OF assms(2), of w] assms(1) show ?thesis
    by simp
qed

lemma put_lines_concat:
  "concat (map (\<lambda>bp. put_lines (map f (records bp))) bps)
     = put_lines (map f (concat (map records bps)))"
  by (induction bps) (simp_all add: put_lines_append put_lines_def)

lemma put_lines_Nil_iff: "put_lines ts = [] \<longleftrightarrow> ts = []"
  by (cases ts) (simp_all add: put_lines_def)

lemma remap_batches_ok:
  assumes "distinct batches"
    and "\<forall>b\<in>set batches. \<exists>bf. remap_batch term_mapping (fs b) = Inr bf"
  shows "\<exists>fs'. remap_batches term_mapping batches fs = Inr fs'"
  using assms
proof (induction batches arbitrary: fs)
  case Nil
  show ?case by simp
next
  case (Cons batch batches)
  from Cons.prems obtain bf where bf: "remap_batch term_mapping (fs batch) = Inr bf"
    by auto
  have d: "distinct batches"
    using Cons.prems by simp
  have "\<forall>b\<in>set batches. \<exists>bf'. remap_batch term_mapping ((fs(batch := bf)) b) = Inr bf'"
    using Cons.prems by auto
  from Cons.IH [OF d this]
  obtain fs' where "remap_batches term_mapping batches (fs(batch := bf)) = Inr fs'"
    by blast
  with bf show ?case
    by simp
qed

lemma set_global_terms:
  "set (global_terms process_term process_content stream)
     = (\<Union>r\<in>set stream. set (normalised_terms process_term process_content r))"
  by (simp add: global_terms_def)

lemma strict_global_terms:
  "sorted_wrt (<) (global_terms process_term process_content stream)"
  by (simp add: global_terms_def strict_sorted_iff)

lemma length_local_le_global:
  assumes "set recs \<subseteq> set stream"
  shows "length (local_terms process_term process_content recs)
           \<le> length (global_terms process_term process_content stream)"
proof -
  let ?L = "local_terms process_term process_content recs"
  let ?G = "global_terms process_term process_content stream"
  have "set ?L \<subseteq> set ?G"
    using assms by (auto simp: set_local_terms set_global_terms)
  then have "card (set ?L) \<le> card (set ?G)"
    by (intro card_mono) simp_all
  moreover have "distinct ?G"
    using strict_global_terms [of process_term process_content stream]
    by (simp add: strict_sorted_iff)
  ultimately show ?thesis
    by (simp add: distinct_card distinct_local_terms)
qed

lemma records_nth_subset:
  assumes "concat (map records bps) = stream" and "i < length bps"
  shows "set (records (bps ! i)) \<subseteq> set stream"
proof -
  have "set stream = (\<Union>bp\<in>set bps. set (records bp))"
    by (simp add: assms(1) [symmetric])
  moreover have "bps ! i \<in> set bps"
    using assms(2) by simp
  ultimately show ?thesis
    by blast
qed

lemma collect_terms_run:
  assumes fs: "\<forall>i<length bps. fs i = run process_term process_content (bps ! i)"
    and nf: "\<forall>r\<in>set stream.
               \<forall>t\<in>set (normalised_terms process_term process_content r). newline \<notin> set t"
    and cat: "concat (map records bps) = stream"
  shows "collect_terms fs (length bps) = Inr (global_terms process_term process_content stream)"
proof -
  let ?norm = "normalised_terms process_term process_content"
  let ?L = "\<lambda>i. local_terms process_term process_content (records (bps ! i))"
  let ?G = "global_terms process_term process_content stream"
  have sub: "set (records (bps ! i)) \<subseteq> set stream" if "i < length bps" for i
    using cat that by (rule records_nth_subset)
  have lines: "getlines [] (terms (fs i)) = ?L i" if "i < length bps" for i
  proof -
    have "\<forall>t\<in>set (?L i). newline \<notin> set t"
      using nf sub [OF that] by (auto simp: set_local_terms)
    then have "getlines [] (put_lines (?L i)) = ?L i"
      by (rule getlines_put_lines)
    with fs that show ?thesis
      by (simp add: run_eq)
  qed
  from collect_terms_inv [of fs "length bps"]
  obtain ts where c: "collect_terms fs (length bps) = Inr ts"
    and st: "set ts = (\<Union>b<length bps. set (getlines [] (terms (fs b))))"
    and str: "(\<forall>b<length bps. distinct (getlines [] (terms (fs b)))) \<longrightarrow> sorted_wrt (<) ts"
    by blast
  have "sorted_wrt (<) ts"
    using str lines by (simp add: distinct_local_terms)
  moreover have "set ts = set ?G"
  proof -
    have "set ts = (\<Union>i<length bps. set (?L i))"
      using st lines by simp
    also have "\<dots> = (\<Union>bp\<in>set bps. set (local_terms process_term process_content (records bp)))"
      by (rule UN_nth)
    also have "\<dots> = (\<Union>bp\<in>set bps. \<Union>r\<in>set (records bp). set (?norm r))"
      by (simp add: set_local_terms)
    also have "\<dots> = (\<Union>r\<in>set (concat (map records bps)). set (?norm r))"
      by auto
    finally show ?thesis
      by (simp add: cat set_global_terms)
  qed
  ultimately have "ts = ?G"
    using strict_global_terms [of process_term process_content stream]
    by (intro sorted_distinct_set_unique) (simp_all add: strict_sorted_iff)
  with c show ?thesis
    by simp
qed

lemma merge_run:
  assumes fs: "\<forall>i<length bps. fs i = run process_term process_content (bps ! i)"
    and full: "\<forall>bp\<in>set (butlast bps). records bp \<noteq> []"
    and nf: "\<forall>r\<in>set stream.
               \<forall>t\<in>set (normalised_terms process_term process_content r). newline \<notin> set t"
    and len: "length (global_terms process_term process_content stream) \<le> 2 ^ 32"
    and cat: "concat (map records bps) = stream"
  shows "\<exists>fs'. merge fs document_count (length bps)
           = Inr ((forward_index process_term process_content stream)
                    \<lparr>index := 1 # document_count
                        # encode_documents (global_terms process_term process_content stream)
                            (map (normalised_terms process_term process_content) stream)\<rparr>,
                  fs')
         \<and> (\<forall>i<length bps. fs' i = (run process_term process_content (bps ! i))
                \<lparr>index := 1 # of_nat (length (records (bps ! i)))
                    # encode_documents (global_terms process_term process_content stream)
                        (map (normalised_terms process_term process_content)
                           (records (bps ! i)))\<rparr>)"
proof -
  let ?norm = "normalised_terms process_term process_content"
  let ?G = "global_terms process_term process_content stream"
  let ?n = "length bps"
  let ?run = "run process_term process_content"
  let ?remapped = "\<lambda>bp. (?run bp)\<lparr>index := 1 # of_nat (length (records bp))
                      # encode_documents ?G (map ?norm (records bp))\<rparr>"
  have sub: "set (records (bps ! i)) \<subseteq> set stream" if "i < ?n" for i
    using cat that by (rule records_nth_subset)
  have ct: "collect_terms fs ?n = Inr ?G"
    using fs nf cat by (rule collect_terms_run)
  have rb: "remap_batch (reverse_mapping ?G) (fs i) = Inr (?remapped (bps ! i))" if "i < ?n" for i
  proof -
    have "\<forall>r\<in>set (records (bps ! i)). \<forall>t\<in>set (?norm r). newline \<notin> set t"
      using nf sub [OF that] by auto
    moreover have "set (local_terms process_term process_content (records (bps ! i))) \<subseteq> set ?G"
      using sub [OF that] by (auto simp: set_local_terms set_global_terms)
    moreover have "length (local_terms process_term process_content (records (bps ! i))) \<le> 2 ^ 32"
      using length_local_le_global [OF sub [OF that], of process_term process_content] len
      by simp
    ultimately have "remap_batch (reverse_mapping ?G) (?run (bps ! i)) = Inr (?remapped (bps ! i))"
      by (rule remap_batch_run)
    with fs that show ?thesis by simp
  qed
  have "\<exists>fs'. remap_batches (reverse_mapping ?G) [0..<?n] fs = Inr fs'"
    using rb by (intro remap_batches_ok) auto
  then obtain fs' where rbs: "remap_batches (reverse_mapping ?G) [0..<?n] fs = Inr fs'"
    by blast
  from remap_batches_each [OF _ rbs] rb
  have fs': "\<forall>i<?n. fs' i = ?remapped (bps ! i)"
    by auto
  have docs: "written (fold (\<lambda>batch. put_rdbuf (documents (fs batch))) [0..<?n]
                 \<lparr>written = [], failbit = False\<rparr>) = put_lines (map trecid stream)"
  proof -
    have m: "map (\<lambda>batch. documents (fs batch)) [0..<?n]
               = map (\<lambda>bp. put_lines (map trecid (records bp))) bps"
      using fs by (intro map_upt_conv) (simp add: run_eq)
    have "\<forall>x\<in>set (butlast (map (\<lambda>bp. put_lines (map trecid (records bp))) bps)). x \<noteq> []"
      using full by (auto simp: map_butlast [symmetric] put_lines_Nil_iff)
    from fold_put_rdbuf_upt [OF m this, of "[]"] show ?thesis
      by (simp add: put_lines_concat cat)
  qed
  have urls: "written (fold (\<lambda>batch. put_rdbuf (urls (fs batch))) [0..<?n]
                 \<lparr>written = [], failbit = False\<rparr>) = put_lines (map url stream)"
  proof -
    have m: "map (\<lambda>batch. urls (fs batch)) [0..<?n]
               = map (\<lambda>bp. put_lines (map url (records bp))) bps"
      using fs by (intro map_upt_conv) (simp add: run_eq)
    have "\<forall>x\<in>set (butlast (map (\<lambda>bp. put_lines (map url (records bp))) bps)). x \<noteq> []"
      using full by (auto simp: map_butlast [symmetric] put_lines_Nil_iff)
    from fold_put_rdbuf_upt [OF m this, of "[]"] show ?thesis
      by (simp add: put_lines_concat cat)
  qed
  have ix: "written (fold (\<lambda>batch. put_rdbuf (drop 2 (index (fs' batch)))) [0..<?n]
                 \<lparr>written = write_header [] document_count, failbit = False\<rparr>)
              = 1 # document_count # encode_documents ?G (map ?norm stream)"
  proof -
    have m: "map (\<lambda>batch. drop 2 (index (fs' batch))) [0..<?n]
               = map (\<lambda>bp. encode_documents ?G (map ?norm (records bp))) bps"
      using fs' by (intro map_upt_conv) simp
    have "\<forall>x\<in>set (butlast (map (\<lambda>bp. encode_documents ?G (map ?norm (records bp))) bps)). x \<noteq> []"
      using full by (auto simp: map_butlast [symmetric] encode_documents_Nil_iff)
    from fold_put_rdbuf_upt [OF m this, of "write_header [] document_count"] show ?thesis
      by (simp add: encode_documents_concat cat write_header_eq)
  qed
  have "merge fs document_count ?n
          = Inr ((forward_index process_term process_content stream)
                    \<lparr>index := 1 # document_count # encode_documents ?G (map ?norm stream)\<rparr>, fs')"
    by (simp add: merge_def ct rbs docs urls ix forward_index_def put_lines_def Let_def)
  with fs' show ?thesis
    by blast
qed

lemma build_merge:
  assumes fair: "\<forall>bps. set (sched bps) = set bps"
    and nf: "\<forall>r\<in>set stream.
               \<forall>t\<in>set (normalised_terms process_term process_content r). newline \<notin> set t"
    and len: "length (global_terms process_term process_content stream) \<le> 2 ^ 32"
    and disp: "dispatch batch_size stream [] 0 0 = (bps, batch_no, first_doc)"
  shows "batch_no = length bps \<and> concat (map records bps) = stream
    \<and> (\<exists>fs'. merge (run_batches process_term process_content (sched bps)) first_doc batch_no
               = Inr (forward_index process_term process_content stream, fs')
         \<and> (\<forall>i<batch_no. fs' i = (run process_term process_content (bps ! i))
                \<lparr>index := 1 # of_nat (length (records (bps ! i)))
                    # encode_documents (global_terms process_term process_content stream)
                        (map (normalised_terms process_term process_content)
                           (records (bps ! i)))\<rparr>))"
proof -
  from dispatch_inv [OF disp]
  have cat: "concat (map records bps) = stream"
    and nums: "map batch_number bps = [0..<batch_no]"
    and fd: "first_doc = of_nat (length stream)"
    and full: "\<forall>bp\<in>set (butlast bps). records bp \<noteq> []"
    by simp_all
  from nums have n: "batch_no = length bps"
    by (metis diff_zero length_map length_upt)
  have fs: "\<forall>i<length bps. run_batches process_term process_content (sched bps) i
               = run process_term process_content (bps ! i)"
    using nums fair by (auto simp: n intro!: run_batches_nth)
  from merge_run [OF fs full nf len cat, of first_doc]
  show ?thesis
    by (simp add: n cat fd forward_index_def)
qed

lemma build_forward_index:
  assumes "2 \<le> threads"
    and "\<forall>bps. set (sched bps) = set bps"
    and "\<forall>r\<in>set stream.
           \<forall>t\<in>set (normalised_terms process_term process_content r). newline \<notin> set t"
    and "length (global_terms process_term process_content stream) \<le> 2 ^ 32"
  shows "build stream process_term process_content batch_size threads sched
           = Inr (forward_index process_term process_content stream)"
proof -
  obtain bps batch_no first_doc
    where disp: "dispatch batch_size stream [] 0 0 = (bps, batch_no, first_doc)"
    by (cases "dispatch batch_size stream [] 0 0") auto
  from build_merge [OF assms(2-4) disp]
  obtain fs' where "merge (run_batches process_term process_content (sched bps)) first_doc batch_no
               = Inr (forward_index process_term process_content stream, fs')"
    by blast
  with assms(1) disp show ?thesis
    by (simp add: build_def)
qed

section \<open>Reading the output files\<close>

lemma getlines_no_newline:
  "newline \<notin> set cur \<Longrightarrow> \<forall>l\<in>set (getlines cur s). newline \<notin> set l"
proof (induction s arbitrary: cur)
  case Nil
  then show ?case by simp
next
  case (Cons c s)
  show ?case
  proof (cases "c = newline")
    case True
    with Cons.prems Cons.IH [of "[]"] show ?thesis by simp
  next
    case False
    with Cons.prems Cons.IH [of "cur @ [c]"] show ?thesis by simp
  qed
qed

lemma read_sequences_write_document:
  "read_sequences (write_document [] ids @ rest)
     = take (unat (of_nat (length ids) :: u32)) ids # read_sequences rest"
proof -
  let ?n = "of_nat (length ids) :: u32"
  have "length (take (unat ?n) ids) = unat ?n"
    using unat_of_nat_le [of "length ids"] by simp
  then show ?thesis
    by (simp add: write_document_eq)
qed

lemma read_sequences_encode_documents:
  "read_sequences (encode_documents dict docs)
     = map (\<lambda>ts. take (unat (of_nat (length ts) :: u32))
                    (map (\<lambda>t. of_nat (index_of dict t)) ts)) docs"
  by (induction docs)
    (simp_all add: encode_documents_Cons read_sequences_write_document, simp add: encode_documents_def)

lemma read_sequences_forward_index:
  "read_sequences (index (forward_index process_term process_content stream))
     = [of_nat (length stream)]
       # map (\<lambda>ts. take (unat (of_nat (length ts) :: u32))
               (map (\<lambda>t. of_nat (index_of (global_terms process_term process_content stream) t)) ts))
           (map (normalised_terms process_term process_content) stream)"
  by (simp add: forward_index_def read_sequences_encode_documents)

lemma decode_index_of:
  assumes "t \<in> set dict" and "length dict \<le> 2 ^ 32"
  shows "dict ! unat (of_nat (index_of dict t) :: u32) = t"
    and "unat (of_nat (index_of dict t) :: u32) < length dict"
proof -
  from assms(1) have lt: "index_of dict t < length dict"
    by (rule index_of_less)
  with assms(2) have "unat (of_nat (index_of dict t) :: u32) = index_of dict t"
    by (intro unat_of_nat_u32) simp
  with lt assms(1) show "dict ! unat (of_nat (index_of dict t) :: u32) = t"
    and "unat (of_nat (index_of dict t) :: u32) < length dict"
    by (simp_all add: nth_index_of)
qed

lemma getlines_terms_forward_index:
  assumes "\<forall>r\<in>set stream.
             \<forall>t\<in>set (normalised_terms process_term process_content r). newline \<notin> set t"
  shows "getlines [] (terms (forward_index process_term process_content stream))
           = global_terms process_term process_content stream"
proof -
  have "\<forall>t\<in>set (global_terms process_term process_content stream). newline \<notin> set t"
    using assms by (auto simp: set_global_terms)
  then show ?thesis
    by (simp add: forward_index_def getlines_put_lines)
qed

lemma global_terms_scenario_1:
  "global_terms id parse_plaintext_content scenario_1
     = [''brown'', ''dog'', ''fox'', ''lazy'', ''quick'', ''the'']"
  by code_simp

lemma newline_free_scenario_1:
  "\<forall>r\<in>set scenario_1.
     \<forall>t\<in>set (normalised_terms id parse_plaintext_content r). newline \<notin> set t"
  by code_simp

lemma short_documents_scenario_1:
  "\<forall>r\<in>set scenario_1. length (normalised_terms id parse_plaintext_content r) < 2 ^ 32"
proof
  fix r assume "r \<in> set scenario_1"
  moreover have "\<forall>r\<in>set scenario_1. length (normalised_terms id parse_plaintext_content r) \<le> 4"
    by code_simp
  ultimately have "length (normalised_terms id parse_plaintext_content r) \<le> 4"
    by blast
  also have "(4::nat) < 2 ^ 32"
    by simp
  finally show "length (normalised_terms id parse_plaintext_content r) < 2 ^ 32" .
qed

section \<open>Determinism, order and term-ids of the build\<close>

text \<open>
  C5. For a fixed input stream and fixed callbacks, the output of \<open>build\<close> does not depend
  on \<open>batch_size\<close>, on \<open>threads\<close> (at least 2 in both runs), or on the order in which the
  batch workers finish: any two runs return the same binary index, \<open>.documents\<close>, \<open>.urls\<close>
  and \<open>.terms\<close>. The normalised terms contain no line break (the \<open>.terms\<close> files hold one
  term per line) and there are at most \<open>2^32\<close> distinct terms (term-ids are 32-bit words).
\<close>

theorem build_deterministic:
  assumes "2 \<le> threads" and "2 \<le> threads'"
    and "\<forall>bps. set (sched bps) = set bps" and "\<forall>bps. set (sched' bps) = set bps"
    and "\<forall>r\<in>set stream.
           \<forall>t\<in>set (normalised_terms process_term process_content r). newline \<notin> set t"
    and "length (global_terms process_term process_content stream) \<le> 2 ^ 32"
  shows "build stream process_term process_content batch_size threads sched
           = build stream process_term process_content batch_size' threads' sched'"
  using build_forward_index [OF assms(1) assms(3) assms(5) assms(6)]
    build_forward_index [OF assms(2) assms(4) assms(5) assms(6)]
  by simp

theorem build_deterministic_witness:
  "build scenario_1 id parse_plaintext_content 2 2 id
     = build scenario_1 id parse_plaintext_content 1 16 rev"
proof -
  have len: "length (global_terms id parse_plaintext_content scenario_1) \<le> 2 ^ 32"
    by (simp add: global_terms_scenario_1)
  show ?thesis
    by (rule build_deterministic [OF _ _ _ _ newline_free_scenario_1 len]) simp_all
qed

text \<open>
  C4. The record at position \<open>k\<close> of the source becomes document \<open>k\<close> of the final binary
  index: line \<open>k\<close> of \<open>.documents\<close> and of \<open>.urls\<close> are its \<open>trecid\<close> and \<open>url\<close>, and
  document \<open>k\<close> (the sequence after the header), decoded through the lines of \<open>.terms\<close>,
  is the sequence of normalised terms of that record. This holds for every batch size
  and every order in which the batch workers finish. All records are counted, whatever
  their \<open>valid\<close> flag. The \<open>trecid\<close>s, \<open>url\<close>s and normalised terms contain no line break,
  there are at most \<open>2^32\<close> distinct terms and fewer than \<open>2^32\<close> terms per document.
\<close>

theorem document_order_preserved:
  assumes thr: "2 \<le> threads"
    and fair: "\<forall>bps. set (sched bps) = set bps"
    and nf: "\<forall>r\<in>set stream.
               \<forall>t\<in>set (normalised_terms process_term process_content r). newline \<notin> set t"
    and len: "length (global_terms process_term process_content stream) \<le> 2 ^ 32"
    and ids: "\<forall>r\<in>set stream. newline \<notin> set (trecid r) \<and> newline \<notin> set (url r)"
    and dl: "\<forall>r\<in>set stream. length (normalised_terms process_term process_content r) < 2 ^ 32"
    and k: "k < length stream"
  shows "\<exists>out. build stream process_term process_content batch_size threads sched = Inr out
    \<and> length (getlines [] (documents out)) = length stream
    \<and> getlines [] (documents out) ! k = trecid (stream ! k)
    \<and> length (getlines [] (urls out)) = length stream
    \<and> getlines [] (urls out) ! k = url (stream ! k)
    \<and> length (tl (read_sequences (index out))) = length stream
    \<and> (\<forall>w\<in>set (tl (read_sequences (index out)) ! k).
          unat w < length (getlines [] (terms out)))
    \<and> map (\<lambda>w. getlines [] (terms out) ! unat w) (tl (read_sequences (index out)) ! k)
        = normalised_terms process_term process_content (stream ! k)"
proof -
  let ?norm = "normalised_terms process_term process_content"
  let ?G = "global_terms process_term process_content stream"
  let ?out = "forward_index process_term process_content stream"
  let ?ts = "?norm (stream ! k)"
  have b: "build stream process_term process_content batch_size threads sched = Inr ?out"
    using thr fair nf len by (rule build_forward_index)
  have "getlines [] (put_lines (map trecid stream)) = map trecid stream"
    using ids by (intro getlines_put_lines) simp
  then have d: "getlines [] (documents ?out) = map trecid stream"
    by (simp add: forward_index_def)
  have "getlines [] (put_lines (map url stream)) = map url stream"
    using ids by (intro getlines_put_lines) simp
  then have u: "getlines [] (urls ?out) = map url stream"
    by (simp add: forward_index_def)
  have g: "getlines [] (terms ?out) = ?G"
    using nf by (rule getlines_terms_forward_index)
  have n: "length (tl (read_sequences (index ?out))) = length stream"
    by (simp add: read_sequences_forward_index)
  from k have mem: "stream ! k \<in> set stream"
    by simp
  with dl have "unat (of_nat (length ?ts) :: u32) = length ?ts"
    by (intro unat_of_nat_u32) simp
  with k have doc: "tl (read_sequences (index ?out)) ! k
                      = map (\<lambda>t. of_nat (index_of ?G t)) ?ts"
    by (simp add: read_sequences_forward_index)
  have inG: "t \<in> set ?G" if "t \<in> set ?ts" for t
    using that mem by (auto simp: set_global_terms)
  have bound: "\<forall>w\<in>set (map (\<lambda>t. of_nat (index_of ?G t) :: u32) ?ts). unat w < length ?G"
    using inG len by (auto intro: decode_index_of)
  have "map (\<lambda>w. ?G ! unat w) (map (\<lambda>t. of_nat (index_of ?G t) :: u32) ?ts) = ?ts"
  proof -
    have "?G ! unat (of_nat (index_of ?G t) :: u32) = t" if "t \<in> set ?ts" for t
      using inG [OF that] len by (rule decode_index_of)
    then show ?thesis
      by (simp add: map_idI)
  qed
  with b d u g n doc bound k show ?thesis
    by simp
qed

theorem document_order_preserved_witness:
  "\<exists>out. build scenario_1 id parse_plaintext_content 2 2 rev = Inr out
    \<and> length (getlines [] (documents out)) = length scenario_1
    \<and> getlines [] (documents out) ! 1 = trecid (scenario_1 ! 1)
    \<and> length (getlines [] (urls out)) = length scenario_1
    \<and> getlines [] (urls out) ! 1 = url (scenario_1 ! 1)
    \<and> length (tl (read_sequences (index out))) = length scenario_1
    \<and> (\<forall>w\<in>set (tl (read_sequences (index out)) ! 1).
          unat w < length (getlines [] (terms out)))
    \<and> map (\<lambda>w. getlines [] (terms out) ! unat w) (tl (read_sequences (index out)) ! 1)
        = normalised_terms id parse_plaintext_content (scenario_1 ! 1)"
proof (rule document_order_preserved)
  show "(2::nat) \<le> 2" by simp
  show "\<forall>bps::Batch_Process list. set (rev bps) = set bps" by simp
  show "\<forall>r\<in>set scenario_1.
          \<forall>t\<in>set (normalised_terms id parse_plaintext_content r). newline \<notin> set t"
    by (rule newline_free_scenario_1)
  show "length (global_terms id parse_plaintext_content scenario_1) \<le> 2 ^ 32"
    by (simp add: global_terms_scenario_1)
  show "\<forall>r\<in>set scenario_1. newline \<notin> set (trecid r) \<and> newline \<notin> set (url r)"
    by (simp add: scenario_1_def)
  show "\<forall>r\<in>set scenario_1. length (normalised_terms id parse_plaintext_content r) < 2 ^ 32"
    by (rule short_documents_scenario_1)
  show "1 < length scenario_1"
    by (simp add: scenario_1_def)
qed

text \<open>
  C3. When \<open>merge\<close> runs on the batch files that the workers wrote for the dispatched
  batches, it succeeds, and after its remapping loop every document of every batch index
  file \<open>i\<close> (the sequences after the header) holds, for each term of its record, the
  position of that term in the global term list, which is the list of lines of the final
  \<open>.terms\<close>. Every term-id of the final binary index is smaller than the number of those
  lines. The normalised terms contain no line break, there are at most \<open>2^32\<close> distinct
  terms and fewer than \<open>2^32\<close> terms per document.
\<close>

theorem remapped_term_ids_are_global_positions:
  assumes fair: "\<forall>bps. set (sched bps) = set bps"
    and nf: "\<forall>r\<in>set stream.
               \<forall>t\<in>set (normalised_terms process_term process_content r). newline \<notin> set t"
    and len: "length (global_terms process_term process_content stream) \<le> 2 ^ 32"
    and dl: "\<forall>r\<in>set stream. length (normalised_terms process_term process_content r) < 2 ^ 32"
    and disp: "dispatch batch_size stream [] 0 0 = (bps, batch_no, first_doc)"
  shows "\<exists>out fs'.
      merge (run_batches process_term process_content (sched bps)) first_doc batch_no
        = Inr (out, fs')
    \<and> (\<forall>i<batch_no. tl (read_sequences (index (fs' i)))
          = map (\<lambda>r. map (\<lambda>t. of_nat (index_of (getlines [] (terms out)) t))
                         (normalised_terms process_term process_content r))
              (records (bps ! i)))
    \<and> (\<forall>ws\<in>set (tl (read_sequences (index out))).
          \<forall>w\<in>set ws. unat w < length (getlines [] (terms out)))"
proof -
  let ?norm = "normalised_terms process_term process_content"
  let ?G = "global_terms process_term process_content stream"
  let ?out = "forward_index process_term process_content stream"
  let ?g = "\<lambda>t. of_nat (index_of ?G t) :: u32"
  from build_merge [OF fair nf len disp]
  obtain fs' where n: "batch_no = length bps" and cat: "concat (map records bps) = stream"
    and m: "merge (run_batches process_term process_content (sched bps)) first_doc batch_no
              = Inr (?out, fs')"
    and fs': "\<forall>i<batch_no. index (fs' i) = 1 # of_nat (length (records (bps ! i)))
                # encode_documents ?G (map ?norm (records (bps ! i)))"
    by auto
  have g: "getlines [] (terms ?out) = ?G"
    using nf by (rule getlines_terms_forward_index)
  have full: "take (unat (of_nat (length (?norm r)) :: u32)) (map ?g (?norm r)) = map ?g (?norm r)"
    if "r \<in> set stream" for r
  proof -
    from that dl have "unat (of_nat (length (?norm r)) :: u32) = length (?norm r)"
      by (intro unat_of_nat_u32) simp
    then show ?thesis by simp
  qed
  have batch: "tl (read_sequences (index (fs' i))) = map (\<lambda>r. map ?g (?norm r)) (records (bps ! i))"
    if "i < batch_no" for i
  proof -
    from that n cat have "set (records (bps ! i)) \<subseteq> set stream"
      by (intro records_nth_subset) simp_all
    then have "map (\<lambda>r. take (unat (of_nat (length (?norm r)) :: u32)) (map ?g (?norm r)))
                 (records (bps ! i)) = map (\<lambda>r. map ?g (?norm r)) (records (bps ! i))"
      by (intro map_cong [OF refl] full) auto
    with fs' that show ?thesis
      by (simp add: read_sequences_encode_documents comp_def)
  qed
  have bound: "unat w < length ?G" if "ws \<in> set (tl (read_sequences (index ?out)))" and "w \<in> set ws"
    for ws w
  proof -
    from that(1) obtain r where r: "r \<in> set stream"
      and ws: "ws = take (unat (of_nat (length (?norm r)) :: u32)) (map ?g (?norm r))"
      by (auto simp: read_sequences_forward_index)
    from that(2) ws have "w \<in> set (map ?g (?norm r))"
      by (auto dest: in_set_takeD)
    then obtain t where t: "t \<in> set (?norm r)" and w: "w = ?g t"
      by auto
    from t r have "t \<in> set ?G"
      by (auto simp: set_global_terms)
    then show ?thesis
      unfolding w using len by (rule decode_index_of)
  qed
  from m batch bound show ?thesis
    unfolding g [symmetric] by blast
qed

theorem remapped_term_ids_are_global_positions_witness:
  "\<exists>out fs'.
      merge (run_batches id parse_plaintext_content
               (rev [\<lparr>batch_number = 0, records = take 2 scenario_1, first_document = 0\<rparr>,
                     \<lparr>batch_number = 1, records = drop 2 scenario_1, first_document = 2\<rparr>]))
        3 2 = Inr (out, fs')
    \<and> (\<forall>i<2. tl (read_sequences (index (fs' i)))
          = map (\<lambda>r. map (\<lambda>t. of_nat (index_of (getlines [] (terms out)) t))
                         (normalised_terms id parse_plaintext_content r))
              (records ([\<lparr>batch_number = 0, records = take 2 scenario_1, first_document = 0\<rparr>,
                         \<lparr>batch_number = 1, records = drop 2 scenario_1, first_document = 2\<rparr>]
                        ! i)))
    \<and> (\<forall>ws\<in>set (tl (read_sequences (index out))).
          \<forall>w\<in>set ws. unat w < length (getlines [] (terms out)))"
proof (rule remapped_term_ids_are_global_positions [where stream = scenario_1 and batch_size = 2])
  show "\<forall>bps::Batch_Process list. set (rev bps) = set bps" by simp
  show "\<forall>r\<in>set scenario_1.
          \<forall>t\<in>set (normalised_terms id parse_plaintext_content r). newline \<notin> set t"
    by (rule newline_free_scenario_1)
  show "length (global_terms id parse_plaintext_content scenario_1) \<le> 2 ^ 32"
    by (simp add: global_terms_scenario_1)
  show "\<forall>r\<in>set scenario_1. length (normalised_terms id parse_plaintext_content r) < 2 ^ 32"
    by (rule short_documents_scenario_1)
  show "dispatch 2 scenario_1 [] 0 0
          = ([\<lparr>batch_number = 0, records = take 2 scenario_1, first_document = 0\<rparr>,
              \<lparr>batch_number = 1, records = drop 2 scenario_1, first_document = 2\<rparr>], 2, 3)"
    by code_simp
qed

text \<open>
  C1, as the code has it. \<open>build\<close> never consults \<open>valid()\<close>: every record that the source
  returns is put into a batch and counted. The header's document count is the number of
  all records of the stream, the index holds one document per record, and \<open>.documents\<close>
  and \<open>.urls\<close> hold one line per record, in the order of the stream. There are at least
  two threads, the normalised terms contain no line break and there are at most \<open>2^32\<close>
  distinct terms.
\<close>

theorem build_counts_every_record:
  assumes "2 \<le> threads"
    and "\<forall>bps. set (sched bps) = set bps"
    and "\<forall>r\<in>set stream.
           \<forall>t\<in>set (normalised_terms process_term process_content r). newline \<notin> set t"
    and "length (global_terms process_term process_content stream) \<le> 2 ^ 32"
  shows "\<exists>out. build stream process_term process_content batch_size threads sched = Inr out
    \<and> take 2 (index out) = [1, of_nat (length stream)]
    \<and> length (tl (read_sequences (index out))) = length stream
    \<and> documents out = put_lines (map trecid stream)
    \<and> urls out = put_lines (map url stream)"
  using build_forward_index [OF assms]
  by (simp add: read_sequences_forward_index) (simp add: forward_index_def)

theorem build_counts_every_record_witness:
  "\<exists>out. build scenario_5 id parse_plaintext_content 2 2 id = Inr out
    \<and> take 2 (index out) = [1, of_nat (length scenario_5)]
    \<and> length (tl (read_sequences (index out))) = length scenario_5
    \<and> documents out = put_lines (map trecid scenario_5)
    \<and> urls out = put_lines (map url scenario_5)"
proof (rule build_counts_every_record)
  show "(2::nat) \<le> 2" by simp
  show "\<forall>bps::Batch_Process list. set (id bps) = set bps" by simp
  show "\<forall>r\<in>set scenario_5.
          \<forall>t\<in>set (normalised_terms id parse_plaintext_content r). newline \<notin> set t"
    by code_simp
  have "global_terms id parse_plaintext_content scenario_5 = [''a'', ''b'', ''c'']"
    by code_simp
  then show "length (global_terms id parse_plaintext_content scenario_5) \<le> 2 ^ 32"
    by simp
qed

text \<open>
  C1 as stated fails: for a source whose second record has \<open>valid = false\<close> the header
  counts 3 documents, the index holds three documents, and \<open>d1\<close> and \<open>u1\<close> are lines of
  \<open>.documents\<close> and \<open>.urls\<close>.
\<close>

theorem build_counts_invalid_record_counterexample:
  "build scenario_5 id parse_plaintext_content 2 2 id
     = Inr \<lparr>index = [1, 3, 2, 0, 1, 2, 1, 2, 2, 2, 0],
            documents = ''d0\<newline>d1\<newline>d2\<newline>'',
            urls = ''u0\<newline>u1\<newline>u2\<newline>'',
            terms = ''a\<newline>b\<newline>c\<newline>''\<rparr>
   \<and> map valid scenario_5 = [True, False, True]"
  by code_simp

section \<open>The global term list\<close>

text \<open>
  With two or more batches the result is strictly increasing whatever the batch files
  contain: the last range is then the result of a merge, and every merge removes the
  duplicates of its whole range. A single batch is only sorted.
\<close>

lemma merge_spans_lvl:
  "merge_spans lhs rhs terms_v = Inr (s', terms_v') \<Longrightarrow> span_lvl s' = span_lvl lhs + 1"
  by (auto simp: merge_spans_def Let_def split: if_splits)

lemma merge_spans_sorted:
  assumes c: "chain (length terms_v) (rhs # lhs # spans)"
    and s: "sorted_segs terms_v (rhs # lhs # spans)"
  shows "\<exists>s' terms_v'. merge_spans lhs rhs terms_v = Inr (s', terms_v')
           \<and> chain (length terms_v') (s' # spans)
           \<and> sorted_segs terms_v' (s' # spans)
           \<and> 0 < span_lvl s'
           \<and> set terms_v' = set terms_v"
proof -
  from merge_spans_inv [OF c]
  obtain s' t' where m: "merge_spans lhs rhs terms_v = Inr (s', t')"
    and c': "chain (length t') (s' # spans)"
    and sg: "seg t' s' = remdups_adj (inplace_merge (seg terms_v lhs) (seg terms_v rhs))"
    and rest: "\<forall>x\<in>set spans. seg t' x = seg terms_v x"
    and st: "set t' = set terms_v"
    by blast
  from s have "sorted (seg terms_v lhs)" and "sorted (seg terms_v rhs)"
    by (simp_all add: sorted_segs_def)
  then have "sorted_wrt (<) (seg t' s')"
    unfolding sg by (intro strict_remdups_adj sorted_inplace_merge)
  then have "sorted (seg t' s')" and "distinct (seg t' s')"
    by (simp_all add: strict_sorted_iff)
  with s rest have "sorted_segs t' (s' # spans)"
    by (simp add: sorted_segs_def)
  moreover have "0 < span_lvl s'"
    using merge_spans_lvl [OF m] by simp
  ultimately show ?thesis
    using m c' st by blast
qed

lemma push_span_sorted:
  assumes "chain (length terms_v) (s # spans)" and "sorted_segs terms_v (s # spans)"
  shows "\<exists>spans' terms_v'. push_span s spans terms_v = Inr (spans', terms_v')
           \<and> chain (length terms_v') spans'
           \<and> sorted_segs terms_v' spans'
           \<and> spans' \<noteq> []
           \<and> (spans \<noteq> [] \<or> 0 < span_lvl s \<longrightarrow> merged_top spans')
           \<and> set terms_v' = set terms_v"
  using assms
proof (induction spans arbitrary: s terms_v)
  case Nil
  then show ?case by (simp add: merged_top_def)
next
  case (Cons top_span spans)
  show ?case
  proof (cases "span_lvl top_span = span_lvl s")
    case False
    with Cons.prems show ?thesis by (simp add: merged_top_def)
  next
    case True
    from merge_spans_sorted [OF Cons.prems]
    obtain s' t' where m: "merge_spans top_span s terms_v = Inr (s', t')"
      and c: "chain (length t') (s' # spans)"
      and ss: "sorted_segs t' (s' # spans)"
      and lvl: "0 < span_lvl s'"
      and st: "set t' = set terms_v"
      by blast
    from Cons.IH [OF c ss] lvl
    obtain spans' t'' where p: "push_span s' spans t' = Inr (spans', t'')"
      and c': "chain (length t'') spans'"
      and ss': "sorted_segs t'' spans'"
      and ne: "spans' \<noteq> []"
      and mt: "merged_top spans'"
      and st': "set t'' = set t'"
      by blast
    with True m st show ?thesis
      by simp
  qed
qed

lemma collect_batches_sorted:
  assumes "chain (length terms_v) spans" and "sorted_segs terms_v spans"
  shows "\<exists>spans' terms_v'. collect_batches fs batches spans terms_v = Inr (spans', terms_v')
           \<and> chain (length terms_v') spans'
           \<and> sorted_segs terms_v' spans'
           \<and> (batches \<noteq> [] \<longrightarrow> spans' \<noteq> [])
           \<and> (spans \<noteq> [] \<and> (batches \<noteq> [] \<or> merged_top spans) \<longrightarrow> merged_top spans')"
  using assms
proof (induction batches arbitrary: spans terms_v)
  case Nil
  then show ?case by simp
next
  case (Cons batch batches)
  let ?lines = "getlines [] (terms (fs batch))"
  let ?t = "terms_v @ sort ?lines"
  let ?s = "\<lparr>span_first = length terms_v, span_last = length ?t, span_lvl = 0\<rparr>"
  have c: "chain (length ?t) (?s # spans)"
    using Cons.prems by simp
  have "seg ?t ?s = sort ?lines"
    by (simp add: seg_def)
  moreover have "seg ?t x = seg terms_v x" if "x \<in> set spans" for x
    using chain_last_le [OF Cons.prems(1) that] by (rule seg_append)
  ultimately have ss: "sorted_segs ?t (?s # spans)"
    using Cons.prems(2) by (simp add: sorted_segs_def)
  from push_span_sorted [OF c ss]
  obtain spans1 t1 where p: "push_span ?s spans ?t = Inr (spans1, t1)"
    and c1: "chain (length t1) spans1"
    and ss1: "sorted_segs t1 spans1"
    and ne1: "spans1 \<noteq> []"
    and mt1: "spans \<noteq> [] \<longrightarrow> merged_top spans1"
    by auto
  from Cons.IH [OF c1 ss1]
  obtain spans' t' where r: "collect_batches fs batches spans1 t1 = Inr (spans', t')"
    and c': "chain (length t') spans'"
    and ss': "sorted_segs t' spans'"
    and ne': "batches \<noteq> [] \<longrightarrow> spans' \<noteq> []"
    and mt': "spans1 \<noteq> [] \<and> (batches \<noteq> [] \<or> merged_top spans1) \<longrightarrow> merged_top spans'"
    by blast
  have eq: "collect_batches fs (batch # batches) spans terms_v = Inr (spans', t')"
    using p r by (simp add: Let_def)
  have nonempty: "spans' \<noteq> []"
  proof (cases batches)
    case Nil
    with r ne1 show ?thesis by simp
  next
    case (Cons b bs)
    with ne' show ?thesis by simp
  qed
  have "merged_top spans'" if "spans \<noteq> []"
    using that mt1 mt' ne1 by blast
  with eq c' ss' nonempty show ?case
    by blast
qed

lemma drain_spans_sorted:
  assumes "chain (length terms_v) spans" and "sorted_segs terms_v spans"
    and "spans = [] \<or> merged_top spans"
  shows "\<exists>terms_v'. drain_spans spans terms_v = Inr terms_v' \<and> sorted_wrt (<) terms_v'"
  using assms
proof (induction spans terms_v rule: drain_spans.induct)
  case (1 terms_v)
  then show ?case by simp
next
  case (2 v terms_v)
  then have "seg terms_v v = terms_v"
    by (simp add: seg_def)
  with 2 show ?case
    by (simp add: sorted_segs_def merged_top_def strict_sorted_iff)
next
  case (3 rhs lhs spans terms_v)
  from merge_spans_sorted [OF "3.prems"(1,2)]
  obtain s' t' where m: "merge_spans lhs rhs terms_v = Inr (s', t')"
    and c: "chain (length t') (s' # spans)"
    and ss: "sorted_segs t' (s' # spans)"
    and lvl: "0 < span_lvl s'"
    by blast
  from lvl have "merged_top (s' # spans)"
    by (simp add: merged_top_def)
  with "3.IH" [OF m refl c ss] m show ?case
    by simp
qed

lemma collect_batches_append:
  "collect_batches fs (xs @ ys) spans terms_v =
     (case collect_batches fs xs spans terms_v of
        Inl e \<Rightarrow> Inl e
      | Inr (spans', terms_v') \<Rightarrow> collect_batches fs ys spans' terms_v')"
proof (induction xs arbitrary: spans terms_v)
  case Nil
  show ?case by simp
next
  case (Cons x xs)
  show ?case
    by (simp add: Let_def Cons split: sum.splits prod.splits)
qed

lemma collect_terms_many_batches:
  assumes "2 \<le> n"
  shows "\<exists>ts. collect_terms fs n = Inr ts \<and> sorted_wrt (<) ts"
proof -
  from assms obtain k where n: "[0..<n] = 0 # 1 # k"
    by (metis One_nat_def Suc_1 Suc_le_lessD upt_conv_Cons less_eq_Suc_le zero_less_Suc less_le_trans)
  have c0: "chain (length ([]::string list)) []" by simp
  have s0: "sorted_segs [] []" by (simp add: sorted_segs_def)
  from collect_batches_sorted [OF c0 s0, of fs "[0]"]
  obtain spans1 t1 where b1: "collect_batches fs [0] [] [] = Inr (spans1, t1)"
    and c1: "chain (length t1) spans1" and ss1: "sorted_segs t1 spans1" and ne1: "spans1 \<noteq> []"
    by auto
  from collect_batches_sorted [OF c1 ss1, of fs "1 # k"] ne1
  obtain spans t where b: "collect_batches fs (1 # k) spans1 t1 = Inr (spans, t)"
    and c: "chain (length t) spans" and ss: "sorted_segs t spans" and mt: "merged_top spans"
    by auto
  have "[0..<n] = [0] @ (1 # k)"
    by (simp add: n)
  then have "collect_batches fs [0..<n] [] [] = Inr (spans, t)"
    by (simp only: collect_batches_append b1 b sum.case prod.case)
  moreover from drain_spans_sorted [OF c ss] mt
  obtain ts where "drain_spans spans t = Inr ts" and "sorted_wrt (<) ts"
    by blast
  ultimately show ?thesis
    by (simp add: collect_terms_def)
qed

lemma run_terms_distinct:
  assumes "\<forall>r\<in>set (records bp).
             \<forall>t\<in>set (normalised_terms process_term process_content r). newline \<notin> set t"
  shows "distinct (getlines [] (terms (run process_term process_content bp)))"
proof -
  have "\<forall>t\<in>set (local_terms process_term process_content (records bp)). newline \<notin> set t"
    using assms by (auto simp: set_local_terms)
  then have "getlines [] (put_lines (local_terms process_term process_content (records bp)))
      = local_terms process_term process_content (records bp)"
    by (rule getlines_put_lines)
  then show ?thesis
    by (simp add: run_eq distinct_local_terms)
qed

lemma two_batches_files:
  "two_batches 0 = \<lparr>index = [1, 1, 2, 0, 1], documents = ''d0\<newline>'', urls = ''u0\<newline>'',
                     terms = ''b\<newline>a\<newline>''\<rparr>"
  "two_batches 1 = \<lparr>index = [1, 1, 3, 0, 1, 0], documents = ''d1\<newline>'', urls = ''u1\<newline>'',
                     terms = ''c\<newline>a\<newline>''\<rparr>"
  by code_simp+

text \<open>
  The hypothesis on a single batch cannot be dropped: a lone batch file that repeats a
  line, which the batch processor writes only when a normalised term contains a line
  break, keeps the repetition.
\<close>

lemma collect_terms_single_batch_repeats:
  "collect_terms (\<lambda>batch. no_files\<lparr>terms := ''b\<newline>a\<newline>b\<newline>''\<rparr>) 1 = Inr [''a'', ''b'', ''b'']"
  by code_simp

text \<open>
  C2. \<open>collect_terms\<close> returns the strictly increasing sequence, in the byte-wise
  lexicographic order, of exactly the lines that occur in some batch \<open>.terms\<close> file, and
  \<open>merge\<close> writes this sequence to \<open>.terms\<close> one term per line, so the lines of \<open>.terms\<close>
  read back as the same strictly increasing sequence without duplicates. \<open>merge\<close> returns
  its files exactly when the remapping of the batch indexes with this sequence returns;
  where the remapping leaves a batch index file, so does \<open>merge\<close>. With two or more
  batches nothing is assumed of the batch \<open>.terms\<close> files. A single batch is sorted but
  never passed to \<open>std::unique\<close>: its file must not repeat a line. The batch processor
  writes each term of its dictionary once, so its files repeat no line as long as no
  normalised term contains a line break (\<open>run_terms_distinct\<close>).
\<close>

theorem collect_terms_sorted_unique:
  assumes "batch_count = 1 \<longrightarrow> distinct (getlines [] (terms (fs 0)))"
  shows "\<exists>terms_v. collect_terms fs batch_count = Inr terms_v
    \<and> sorted_wrt (<) terms_v
    \<and> set terms_v = (\<Union>b<batch_count. set (getlines [] (terms (fs b))))
    \<and> getlines [] (put_lines terms_v) = terms_v
    \<and> (\<forall>document_count.
          case remap_batches (reverse_mapping terms_v) [0..<batch_count] fs of
            Inl e \<Rightarrow> merge fs document_count batch_count = Inl e
          | Inr fs' \<Rightarrow> (\<exists>out. merge fs document_count batch_count = Inr (out, fs')
                          \<and> terms out = put_lines terms_v))"
proof -
  from collect_terms_inv [of fs batch_count]
  obtain ts where c: "collect_terms fs batch_count = Inr ts"
    and st: "set ts = (\<Union>b<batch_count. set (getlines [] (terms (fs b))))"
    and str: "(\<forall>b<batch_count. distinct (getlines [] (terms (fs b)))) \<longrightarrow> sorted_wrt (<) ts"
    by blast
  have strict: "sorted_wrt (<) ts"
  proof (cases "2 \<le> batch_count")
    case True
    from collect_terms_many_batches [OF True, of fs] c show ?thesis
      by simp
  next
    case False
    have "distinct (getlines [] (terms (fs b)))" if "b < batch_count" for b
    proof -
      from that False have "batch_count = 1" and "b = 0"
        by simp_all
      with assms show ?thesis
        by simp
    qed
    with str show ?thesis
      by blast
  qed
  have "\<forall>t\<in>set ts. newline \<notin> set t"
    using st getlines_no_newline [of "[]"] by auto
  then have rt: "getlines [] (put_lines ts) = ts"
    by (rule getlines_put_lines)
  have m: "case remap_batches (reverse_mapping ts) [0..<batch_count] fs of
            Inl e \<Rightarrow> merge fs document_count batch_count = Inl e
          | Inr fs' \<Rightarrow> (\<exists>out. merge fs document_count batch_count = Inr (out, fs')
                          \<and> terms out = put_lines ts)" for document_count
    using c by (simp add: merge_def Let_def put_lines_def split: sum.splits)
  from c st strict rt m show ?thesis
    by blast
qed

theorem collect_terms_sorted_unique_witness:
  "collect_terms two_batches 2 = Inr [''a'', ''b'', ''c'']
    \<and> (\<exists>out fs'. merge two_batches 2 2 = Inr (out, fs')
          \<and> terms out = ''a\<newline>b\<newline>c\<newline>''
          \<and> getlines [] (terms out) = [''a'', ''b'', ''c''])
    \<and> collect_terms two_batches 1 = Inr [''a'', ''b'']
    \<and> (\<exists>out fs'. merge two_batches 1 1 = Inr (out, fs')
          \<and> terms out = ''a\<newline>b\<newline>''
          \<and> getlines [] (terms out) = [''a'', ''b''])"
proof -
  have h2: "(2::nat) = 1 \<longrightarrow> distinct (getlines [] (terms (two_batches 0)))"
    by simp
  have h1: "(1::nat) = 1 \<longrightarrow> distinct (getlines [] (terms (two_batches 0)))"
    by (simp add: two_batches_files)
  have c2: "collect_terms two_batches 2 = Inr [''a'', ''b'', ''c'']"
    by code_simp
  have c1: "collect_terms two_batches 1 = Inr [''a'', ''b'']"
    by code_simp
  have r2: "\<not> isl (remap_batches (reverse_mapping [''a'', ''b'', ''c'']) [0..<2] two_batches)"
    by code_simp
  have r1: "\<not> isl (remap_batches (reverse_mapping [''a'', ''b'']) [0..<1] two_batches)"
    by code_simp
  have p2: "put_lines [''a'', ''b'', ''c''] = ''a\<newline>b\<newline>c\<newline>''"
    by (simp add: put_lines_def)
  have p1: "put_lines [''a'', ''b''] = ''a\<newline>b\<newline>''"
    by (simp add: put_lines_def)
  from collect_terms_sorted_unique [of 2 two_batches, OF h2] c2
  have g2: "getlines [] (put_lines [''a'', ''b'', ''c'']) = [''a'', ''b'', ''c'']"
    and m2: "case remap_batches (reverse_mapping [''a'', ''b'', ''c'']) [0..<2] two_batches of
            Inl e \<Rightarrow> merge two_batches 2 2 = Inl e
          | Inr fs' \<Rightarrow> (\<exists>out. merge two_batches 2 2 = Inr (out, fs')
                          \<and> terms out = put_lines [''a'', ''b'', ''c''])"
    by auto
  from collect_terms_sorted_unique [of 1 two_batches, OF h1] c1
  have g1: "getlines [] (put_lines [''a'', ''b'']) = [''a'', ''b'']"
    and m1: "case remap_batches (reverse_mapping [''a'', ''b'']) [0..<1] two_batches of
            Inl e \<Rightarrow> merge two_batches 1 1 = Inl e
          | Inr fs' \<Rightarrow> (\<exists>out. merge two_batches 1 1 = Inr (out, fs')
                          \<and> terms out = put_lines [''a'', ''b''])"
    by auto
  from r2 m2 g2 p2
  have "\<exists>out fs'. merge two_batches 2 2 = Inr (out, fs')
          \<and> terms out = ''a\<newline>b\<newline>c\<newline>''
          \<and> getlines [] (terms out) = [''a'', ''b'', ''c'']"
    by (cases "remap_batches (reverse_mapping [''a'', ''b'', ''c'']) [0..<2] two_batches") auto
  moreover from r1 m1 g1 p1
  have "\<exists>out fs'. merge two_batches 1 1 = Inr (out, fs')
          \<and> terms out = ''a\<newline>b\<newline>''
          \<and> getlines [] (terms out) = [''a'', ''b'']"
    by (cases "remap_batches (reverse_mapping [''a'', ''b'']) [0..<1] two_batches") auto
  ultimately show ?thesis
    using c1 c2 by blast
qed

end
